theory Spec2Isabelle
  imports Main "HOL-Library.Word"
begin

unbundle bit_operations_syntax

section \<open>Python values used by the decompressor\<close>

text \<open>
  The decoder of \<^verbatim>\<open>src/main.py\<close> works on a \<^verbatim>\<open>bytes\<close> object (the input) and a
  \<^verbatim>\<open>bytearray\<close> (the output). Both are sequences of integers in \<open>0..255\<close>, modelled as
  lists of 8-bit words; an element read into a Python variable becomes an unbounded
  \<open>int\<close> through \<open>uint\<close>. The only exception the two core functions can raise is the
  \<^verbatim>\<open>IndexError\<close> of an out-of-range subscript (allocation is assumed to succeed).
\<close>

type_synonym byte = "8 word"

datatype error = IndexError

text \<open>
  Subscript read \<^verbatim>\<open>xs[i]\<close>: an index in \<open>-len..-1\<close> counts from the end, any index
  outside \<open>-len..len-1\<close> raises.
\<close>

definition getitem :: "'a list \<Rightarrow> int \<Rightarrow> error + 'a" where
  "getitem xs i =
     (if 0 \<le> i \<and> i < int (length xs) then Inr (xs ! nat i)
      else if i < 0 \<and> - int (length xs) \<le> i then Inr (xs ! nat (int (length xs) + i))
      else Inl IndexError)"

text \<open>Subscript store \<^verbatim>\<open>xs[i] = v\<close> on a bytearray, with the same index rule.\<close>

definition setitem :: "'a list \<Rightarrow> int \<Rightarrow> 'a \<Rightarrow> error + 'a list" where
  "setitem xs i v =
     (if 0 \<le> i \<and> i < int (length xs) then Inr (xs[nat i := v])
      else if i < 0 \<and> - int (length xs) \<le> i then Inr (xs[nat (int (length xs) + i) := v])
      else Inl IndexError)"

text \<open>Sequencing of two statements, the first of which may raise.\<close>

definition bind :: "error + 'a \<Rightarrow> ('a \<Rightarrow> error + 'b) \<Rightarrow> error + 'b" where
  "bind m f = (case m of Inl e \<Rightarrow> Inl e | Inr v \<Rightarrow> f v)"

section \<open>The header: \<^verbatim>\<open>GetUncompressedSize\<close>\<close>

text \<open>
  \<^verbatim>\<open>
  offset = 4
  outSize = inData[1] | (inData[2] << 8) | (inData[3] << 16)
  if not outSize:
      outSize = inData[4] | (inData[5] << 8) | (inData[6] << 16) | (inData[7] << 24)
      offset += 4
  return outSize, offset
  \<close>
\<close>

definition GetUncompressedSize :: "byte list \<Rightarrow> error + (int \<times> int)" where
  "GetUncompressedSize inData =
     bind (getitem inData 1) (\<lambda>b1.
     bind (getitem inData 2) (\<lambda>b2.
     bind (getitem inData 3) (\<lambda>b3.
       let outSize = uint b1 OR (push_bit 8 (uint b2)) OR (push_bit 16 (uint b3)) in
       if outSize = 0 then
         bind (getitem inData 4) (\<lambda>b4.
         bind (getitem inData 5) (\<lambda>b5.
         bind (getitem inData 6) (\<lambda>b6.
         bind (getitem inData 7) (\<lambda>b7.
           Inr (uint b4 OR (push_bit 8 (uint b5)) OR (push_bit 16 (uint b6))
                  OR (push_bit 24 (uint b7)), 4 + 4)))))
       else Inr (outSize, 4))))"

section \<open>The token stream: \<^verbatim>\<open>UncompressLZ77\<close>\<close>

text \<open>
  The bytes of one back-reference token, read at \<open>offset\<close> after its flag bit was found
  set. The result is \<open>(pos, copylen, offset)\<close> with the advanced offset.
  \<^verbatim>\<open>
  first = inData[offset]; offset += 1
  second = inData[offset]; offset += 1
  if first < 32:
      third = inData[offset]; offset += 1
      if first >= 16:
          fourth = inData[offset]; offset += 1
          pos = (((third & 0xF) << 8) | fourth) + 1
          copylen = ((second << 4) | ((first & 0xF) << 12) | (third >> 4)) + 273
      else:
          pos = (((second & 0xF) << 8) | third) + 1
          copylen = (((first & 0xF) << 4) | (second >> 4)) + 17
  else:
      pos = (((first & 0xF) << 8) | second) + 1
      copylen = (first >> 4) + 1
  \<close>
\<close>

definition read_token :: "byte list \<Rightarrow> int \<Rightarrow> error + (int \<times> int \<times> int)" where
  "read_token inData offset =
     bind (getitem inData offset) (\<lambda>b1. let first = uint b1 in
     bind (getitem inData (offset + 1)) (\<lambda>b2. let second = uint b2 in
       if first < 32 then
         bind (getitem inData (offset + 2)) (\<lambda>b3. let third = uint b3 in
           if first \<ge> 16 then
             bind (getitem inData (offset + 3)) (\<lambda>b4. let fourth = uint b4 in
               Inr (((push_bit 8 (third AND 0xF)) OR fourth) + 1,
                    ((push_bit 4 second) OR (push_bit 12 (first AND 0xF)) OR (drop_bit 4 third)) + 273,
                    offset + 4))
           else
             Inr (((push_bit 8 (second AND 0xF)) OR third) + 1,
                  ((push_bit 4 (first AND 0xF)) OR (drop_bit 4 second)) + 17,
                  offset + 3))
       else
         Inr (((push_bit 8 (first AND 0xF)) OR second) + 1,
              (drop_bit 4 first) + 1,
              offset + 2)))"

text \<open>
  The copy of one back-reference, one byte per iteration, \<open>y\<close> running through
  \<^verbatim>\<open>range(copylen)\<close>:
  \<^verbatim>\<open>
  for y in range(copylen):
      outData[outIndex + y] = outData[outIndex - pos + y]
  \<close>
\<close>

fun copy_loop :: "byte list \<Rightarrow> int \<Rightarrow> int \<Rightarrow> nat list \<Rightarrow> error + byte list" where
  "copy_loop outData outIndex pos [] = Inr outData"
| "copy_loop outData outIndex pos (y # ys) =
     bind (getitem outData (outIndex - pos + int y)) (\<lambda>v.
     bind (setitem outData (outIndex + int y) v) (\<lambda>outData'.
       copy_loop outData' outIndex pos ys))"

text \<open>
  The inner loop \<^verbatim>\<open>for x in reversed(range(8))\<close> over the bits of one flag byte; the
  list argument holds the values of \<open>x\<close> still to come. The first branch is the
  \<^verbatim>\<open>break\<close>.
\<close>

fun for_loop ::
  "byte list \<Rightarrow> int \<Rightarrow> int \<Rightarrow> nat list \<Rightarrow> int \<Rightarrow> int \<Rightarrow> byte list
     \<Rightarrow> error + (int \<times> int \<times> byte list)" where
  "for_loop inData outLength flags [] offset outIndex outData = Inr (offset, outIndex, outData)"
| "for_loop inData outLength flags (x # xs) offset outIndex outData =
     (if outIndex \<ge> outLength \<or> offset \<ge> int (length inData) then Inr (offset, outIndex, outData)
      else if flags AND (push_bit x 1) \<noteq> 0 then
        bind (read_token inData offset) (\<lambda>(pos, copylen, offset').
        bind (copy_loop outData outIndex pos [0..<nat copylen]) (\<lambda>outData'.
          for_loop inData outLength flags xs offset' (outIndex + copylen) outData'))
      else
        bind (getitem inData offset) (\<lambda>v.
        bind (setitem outData outIndex v) (\<lambda>outData'.
          for_loop inData outLength flags xs (offset + 1) (outIndex + 1) outData')))"

text \<open>
  The outer loop, one flag byte per iteration:
  \<^verbatim>\<open>
  while outIndex < outLength and offset < inLength:
      flags = inData[offset]
      offset += 1
      for x in reversed(range(8)): ...
  \<close>
  The two statements that may raise are sequenced with \<open>case\<close> here, so that the
  recursive call is seen under the result of the inner loop.
\<close>

function while_loop ::
  "byte list \<Rightarrow> int \<Rightarrow> int \<Rightarrow> int \<Rightarrow> byte list \<Rightarrow> error + (int \<times> int \<times> byte list)" where
  "while_loop inData outLength offset outIndex outData =
     (if outIndex < outLength \<and> offset < int (length inData) then
        (case getitem inData offset of
           Inl e \<Rightarrow> Inl e
         | Inr flags \<Rightarrow>
             (case for_loop inData outLength (uint flags) (rev [0..<8]) (offset + 1)
                     outIndex outData of
                Inl e \<Rightarrow> Inl e
              | Inr (offset', outIndex', outData') \<Rightarrow>
                  while_loop inData outLength offset' outIndex' outData'))
      else Inr (offset, outIndex, outData))"
  by pat_completeness auto

text \<open>
  \<^verbatim>\<open>
  if inData[0] != 0x11:
      return inData
  inLength = len(inData)
  outLength, offset = GetUncompressedSize(inData)
  outData = bytearray(outLength)
  outIndex = 0
  while ...
  return bytes(outData)
  \<close>
\<close>

definition UncompressLZ77 :: "byte list \<Rightarrow> error + byte list" where
  "UncompressLZ77 inData =
     bind (getitem inData 0) (\<lambda>marker.
       if uint marker \<noteq> 0x11 then Inr inData
       else
         bind (GetUncompressedSize inData) (\<lambda>(outLength, offset).
         bind (while_loop inData outLength offset 0 (replicate (nat outLength) 0))
           (\<lambda>(offset', outIndex, outData). Inr outData)))"

text \<open>
  Points of a run. The decoder tests \<^verbatim>\<open>offset < inLength\<close> in two places only: in the
  condition of the outer loop and in the \<^verbatim>\<open>break\<close> test at the head of every pass of
  the inner loop. The next three functions run the same loop bodies up to such a point
  and return the cursor as it stands there.

  The outer loop, stopped when its condition is about to be tested for the
  \<open>(n + 1)\<close>-th time (or earlier, where it ends by itself).
\<close>

fun while_steps ::
  "nat \<Rightarrow> byte list \<Rightarrow> int \<Rightarrow> int \<Rightarrow> int \<Rightarrow> byte list \<Rightarrow> error + (int \<times> int \<times> byte list)" where
  "while_steps 0 inData outLength offset outIndex outData = Inr (offset, outIndex, outData)"
| "while_steps (Suc n) inData outLength offset outIndex outData =
     (if outIndex < outLength \<and> offset < int (length inData) then
        bind (getitem inData offset) (\<lambda>flags.
        bind (for_loop inData outLength (uint flags) (rev [0..<8]) (offset + 1) outIndex outData)
          (\<lambda>(offset', outIndex', outData').
             while_steps n inData outLength offset' outIndex' outData'))
      else Inr (offset, outIndex, outData))"

text \<open>
  One more, incomplete iteration of the outer loop: none of it (\<open>0\<close>), or its flag byte
  and the first \<open>k\<close> passes of the inner loop (\<open>Suc k\<close>).
\<close>

fun partial_group ::
  "nat \<Rightarrow> byte list \<Rightarrow> int \<Rightarrow> int \<Rightarrow> int \<Rightarrow> byte list \<Rightarrow> error + (int \<times> int \<times> byte list)" where
  "partial_group 0 inData outLength offset outIndex outData = Inr (offset, outIndex, outData)"
| "partial_group (Suc k) inData outLength offset outIndex outData =
     (if outIndex < outLength \<and> offset < int (length inData) then
        bind (getitem inData offset) (\<lambda>flags.
          for_loop inData outLength (uint flags) (take k (rev [0..<8])) (offset + 1)
            outIndex outData)
      else Inr (offset, outIndex, outData))"

text \<open>
  The cursor after \<open>n\<close> whole iterations of the outer loop followed by an incomplete one.
\<close>

definition decode_upto ::
  "nat \<Rightarrow> nat \<Rightarrow> byte list \<Rightarrow> int \<Rightarrow> int \<Rightarrow> int \<Rightarrow> byte list
     \<Rightarrow> error + (int \<times> int \<times> byte list)" where
  "decode_upto n k inData outLength offset outIndex outData =
     bind (while_steps n inData outLength offset outIndex outData)
       (\<lambda>(offset', outIndex', outData').
          partial_group k inData outLength offset' outIndex' outData')"

section \<open>Sequencing and termination\<close>

lemma bind_Inl [simp]: "bind (Inl e) f = Inl e"
  by (simp add: bind_def)

lemma bind_Inr [simp]: "bind (Inr v) f = f v"
  by (simp add: bind_def)

lemma bind_eq_Inr: "bind m f = Inr r \<longleftrightarrow> (\<exists>v. m = Inr v \<and> f v = Inr r)"
  by (cases m) simp_all

lemma read_token_offset:
  "read_token inData offset = Inr (pos, copylen, offset') \<Longrightarrow>
     offset' = offset + 2 \<or> offset' = offset + 3 \<or> offset' = offset + 4"
  by (auto simp: read_token_def bind_eq_Inr Let_def split: if_splits)

lemma for_loop_offset:
  "for_loop inData outLength flags xs offset outIndex outData = Inr (offset', outIndex', outData')
     \<Longrightarrow> offset \<le> offset'"
proof (induction xs arbitrary: offset outIndex outData)
  case Nil
  then show ?case by simp
next
  case (Cons x xs)
  show ?case
  proof (cases "outIndex \<ge> outLength \<or> offset \<ge> int (length inData)")
    case True
    with Cons.prems show ?thesis by simp
  next
    case False
    show ?thesis
    proof (cases "flags AND (push_bit x 1) \<noteq> 0")
      case True
      with False Cons.prems obtain pos copylen off1 d1 where
        tok: "read_token inData offset = Inr (pos, copylen, off1)" and
        rest: "for_loop inData outLength flags xs off1 (outIndex + copylen) d1
                 = Inr (offset', outIndex', outData')"
        by (auto simp: bind_eq_Inr)
      from read_token_offset [OF tok] have "offset \<le> off1" by auto
      with Cons.IH [OF rest] show ?thesis by simp
    next
      case lit: False
      with False Cons.prems obtain d1 where
        rest: "for_loop inData outLength flags xs (offset + 1) (outIndex + 1) d1
                 = Inr (offset', outIndex', outData')"
        by (auto simp: bind_eq_Inr)
      with Cons.IH [OF rest] show ?thesis by simp
    qed
  qed
qed

text \<open>The outer loop terminates because every iteration consumes its flag byte.\<close>

termination while_loop
proof (relation "measure (\<lambda>(inData, outLength, offset, outIndex, outData).
                   nat (int (length inData) - offset))")
  show "wf (measure (\<lambda>(inData, outLength, offset, outIndex, outData).
                   nat (int (length inData) - offset)))"
    by simp
next
  fix inData :: "byte list" and outLength offset outIndex :: int and outData :: "byte list"
    and flags :: byte and r :: "int \<times> int \<times> byte list" and offset' :: int
    and p :: "int \<times> byte list" and outIndex' :: int and outData' :: "byte list"
  assume guard: "outIndex < outLength \<and> offset < int (length inData)"
    and run: "for_loop inData outLength (uint flags) (rev [0..<8]) (offset + 1) outIndex outData
                = Inr r"
    and r: "(offset', p) = r" "(outIndex', outData') = p"
  from run r have "offset + 1 \<le> offset'"
    by (auto dest: for_loop_offset)
  with guard show "((inData, outLength, offset', outIndex', outData'),
                    (inData, outLength, offset, outIndex, outData))
       \<in> measure (\<lambda>(inData, outLength, offset, outIndex, outData).
                   nat (int (length inData) - offset))"
    by simp
qed

declare while_loop.simps [simp del]

lemma while_loop_unfold:
  "while_loop inData outLength offset outIndex outData =
     (if outIndex < outLength \<and> offset < int (length inData) then
        bind (getitem inData offset) (\<lambda>flags.
        bind (for_loop inData outLength (uint flags) (rev [0..<8]) (offset + 1) outIndex outData)
          (\<lambda>(offset', outIndex', outData').
             while_loop inData outLength offset' outIndex' outData'))
      else Inr (offset, outIndex, outData))"
  by (subst while_loop.simps) (simp add: bind_def split: sum.splits)

section \<open>Basic facts about subscripts\<close>

lemma getitem_nonneg:
  "0 \<le> i \<Longrightarrow>
     getitem xs i = (if i < int (length xs) then Inr (xs ! nat i) else Inl IndexError)"
  by (simp add: getitem_def)

lemma setitem_nonneg:
  "0 \<le> i \<Longrightarrow>
     setitem xs i v = (if i < int (length xs) then Inr (xs[nat i := v]) else Inl IndexError)"
  by (simp add: setitem_def)

section \<open>Header recovery\<close>

lemma or_bytes_24:
  "take_bit 8 L OR (push_bit 8 (take_bit 8 (drop_bit 8 L)))
     OR (push_bit 16 (take_bit 8 (drop_bit 16 L))) = take_bit 24 (L::int)"
proof (rule bit_eqI)
  fix n :: nat
  consider "n < 8" | "8 \<le> n" "n < 16" | "16 \<le> n" "n < 24" | "24 \<le> n"
    by linarith
  then show "bit (take_bit 8 L OR (push_bit 8 (take_bit 8 (drop_bit 8 L)))
          OR (push_bit 16 (take_bit 8 (drop_bit 16 L)))) n = bit (take_bit 24 L) n"
    by cases (auto simp: bit_simps)
qed

lemma or_bytes_32:
  "take_bit 8 L OR (push_bit 8 (take_bit 8 (drop_bit 8 L)))
     OR (push_bit 16 (take_bit 8 (drop_bit 16 L)))
     OR (push_bit 24 (take_bit 8 (drop_bit 24 L))) = take_bit 32 (L::int)"
proof (rule bit_eqI)
  fix n :: nat
  consider "n < 8" | "8 \<le> n" "n < 16" | "16 \<le> n" "n < 24" | "24 \<le> n" "n < 32" | "32 \<le> n"
    by linarith
  then show "bit (take_bit 8 L OR (push_bit 8 (take_bit 8 (drop_bit 8 L)))
          OR (push_bit 16 (take_bit 8 (drop_bit 16 L)))
          OR (push_bit 24 (take_bit 8 (drop_bit 24 L)))) n = bit (take_bit 32 L) n"
    by cases (auto simp: bit_simps)
qed

lemma uint_le_byte:
  "uint (word_of_int (L mod 256) :: byte) = take_bit 8 L"
  "uint (word_of_int (L div 256 mod 256) :: byte) = take_bit 8 (L div 256)"
  "uint (word_of_int (L div 65536 mod 256) :: byte) = take_bit 8 (L div 65536)"
  "uint (word_of_int (L div 16777216 mod 256) :: byte) = take_bit 8 (L div 16777216)"
  by (simp_all add: uint_word_of_int take_bit_eq_mod)

lemma little_endian_24:
  assumes "0 \<le> L" "L < 2 ^ 24"
  shows "uint (word_of_int (L mod 256) :: byte)
           OR (push_bit 8 (uint (word_of_int (L div 256 mod 256) :: byte)))
           OR (push_bit 16 (uint (word_of_int (L div 65536 mod 256) :: byte))) = L"
proof -
  have "uint (word_of_int (L mod 256) :: byte)
           OR (push_bit 8 (uint (word_of_int (L div 256 mod 256) :: byte)))
           OR (push_bit 16 (uint (word_of_int (L div 65536 mod 256) :: byte)))
        = take_bit 8 L OR (push_bit 8 (take_bit 8 (L div 256)))
            OR (push_bit 16 (take_bit 8 (L div 65536)))"
    by (simp only: uint_le_byte)
  also have "\<dots> = take_bit 24 L"
    using or_bytes_24 [of L] by (simp add: drop_bit_eq_div)
  also have "\<dots> = L"
    using assms by (simp add: take_bit_int_eq_self)
  finally show ?thesis .
qed

lemma little_endian_32:
  assumes "0 \<le> L" "L < 2 ^ 32"
  shows "uint (word_of_int (L mod 256) :: byte)
           OR (push_bit 8 (uint (word_of_int (L div 256 mod 256) :: byte)))
           OR (push_bit 16 (uint (word_of_int (L div 65536 mod 256) :: byte)))
           OR (push_bit 24 (uint (word_of_int (L div 16777216 mod 256) :: byte))) = L"
proof -
  have "uint (word_of_int (L mod 256) :: byte)
           OR (push_bit 8 (uint (word_of_int (L div 256 mod 256) :: byte)))
           OR (push_bit 16 (uint (word_of_int (L div 65536 mod 256) :: byte)))
           OR (push_bit 24 (uint (word_of_int (L div 16777216 mod 256) :: byte)))
        = take_bit 8 L OR (push_bit 8 (take_bit 8 (L div 256)))
            OR (push_bit 16 (take_bit 8 (L div 65536)))
            OR (push_bit 24 (take_bit 8 (L div 16777216)))"
    by (simp only: uint_le_byte)
  also have "\<dots> = take_bit 32 L"
    using or_bytes_32 [of L] by (simp add: drop_bit_eq_div)
  also have "\<dots> = L"
    using assms by (simp add: take_bit_int_eq_self)
  finally show ?thesis .
qed

lemma GetUncompressedSize_short:
  "uint b1 OR (push_bit 8 (uint b2)) OR (push_bit 16 (uint b3)) \<noteq> 0 \<Longrightarrow>
   GetUncompressedSize (marker # b1 # b2 # b3 # rest)
     = Inr (uint b1 OR (push_bit 8 (uint b2)) OR (push_bit 16 (uint b3)), 4)"
  by (simp add: GetUncompressedSize_def getitem_nonneg)

lemma GetUncompressedSize_long:
  "GetUncompressedSize (marker # 0 # 0 # 0 # b4 # b5 # b6 # b7 # rest)
     = Inr (uint b4 OR (push_bit 8 (uint b5)) OR (push_bit 16 (uint b6))
              OR (push_bit 24 (uint b7)), 8)"
  by (simp add: GetUncompressedSize_def getitem_nonneg)

lemma GetUncompressedSize_truncated:
  assumes "length inData < 4 \<or>
           (length inData < 8 \<and> inData ! 1 = 0 \<and> inData ! 2 = 0 \<and> inData ! 3 = 0)"
  shows "GetUncompressedSize inData = Inl IndexError"
proof (cases "length inData < 4")
  case True
  then show ?thesis
    by (simp add: GetUncompressedSize_def getitem_nonneg)
next
  case False
  with assms have z: "inData ! 1 = 0" "inData ! 2 = 0" "inData ! 3 = 0"
    and l: "length inData < 8"
    by auto
  from z(1) have z1: "inData ! Suc 0 = 0" by simp
  from False l show ?thesis
    by (simp add: GetUncompressedSize_def getitem_nonneg z z1)
qed

text \<open>
  Claim C6. For every length \<open>L\<close> with \<open>0 < L < 2^24\<close>, a stream whose bytes 1 to 3 hold
  \<open>L\<close> in little-endian order (whatever its marker byte and whatever follows the header)
  makes \<^verbatim>\<open>GetUncompressedSize\<close> return the output length \<open>L\<close> and the start offset 4.
\<close>

theorem GetUncompressedSize_24bit:
  assumes "0 < L" "L < 2 ^ 24"
  shows "GetUncompressedSize
           (marker # word_of_int (L mod 256) # word_of_int (L div 256 mod 256)
              # word_of_int (L div 65536 mod 256) # rest) = Inr (L, 4)"
proof -
  from assms have v: "uint (word_of_int (L mod 256) :: byte)
           OR (push_bit 8 (uint (word_of_int (L div 256 mod 256) :: byte)))
           OR (push_bit 16 (uint (word_of_int (L div 65536 mod 256) :: byte))) = L"
    by (intro little_endian_24) simp_all
  from assms(1) have "L \<noteq> 0" by simp
  then have "uint (word_of_int (L mod 256) :: byte)
           OR (push_bit 8 (uint (word_of_int (L div 256 mod 256) :: byte)))
           OR (push_bit 16 (uint (word_of_int (L div 65536 mod 256) :: byte))) \<noteq> 0"
    unfolding v .
  from GetUncompressedSize_short [OF this] show ?thesis by (simp only: v)
qed

theorem GetUncompressedSize_24bit_witness:
  "(0::int) < 300 \<and> (300::int) < 2 ^ 24 \<and>
   GetUncompressedSize [0x11, 0x2C, 0x01, 0x00, 0x00] = Inr (300, 4)"
  using GetUncompressedSize_24bit [of 300 "0x11" "[0]"] by simp

text \<open>
  Claim C7. For every length \<open>L\<close> that four bytes can hold (\<open>0 \<le> L < 2^32\<close>), a stream
  whose bytes 1 to 3 are all zero and whose bytes 4 to 7 hold \<open>L\<close> in little-endian
  32-bit order makes \<^verbatim>\<open>GetUncompressedSize\<close> return the output length \<open>L\<close> and the
  start offset 8.
\<close>

theorem GetUncompressedSize_extended:
  assumes "0 \<le> L" "L < 2 ^ 32"
  shows "GetUncompressedSize
           (marker # 0 # 0 # 0 # word_of_int (L mod 256) # word_of_int (L div 256 mod 256)
              # word_of_int (L div 65536 mod 256) # word_of_int (L div 16777216 mod 256)
              # rest) = Inr (L, 8)"
  by (simp only: GetUncompressedSize_long little_endian_32 [OF assms])

theorem GetUncompressedSize_extended_witness:
  "(0::int) \<le> 16777216 \<and> (16777216::int) < 2 ^ 32 \<and>
   GetUncompressedSize [0x11, 0, 0, 0, 0, 0, 0, 1, 0xFF] = Inr (16777216, 8)"
  using GetUncompressedSize_extended [of 16777216 "0x11" "[0xFF]"] by simp

section \<open>Marker byte and incomplete headers\<close>

text \<open>
  Claim C8. For every non-empty input whose first byte is not \<open>0x11\<close>,
  \<^verbatim>\<open>UncompressLZ77\<close> returns the input byte sequence unchanged: no header is read and
  nothing is decoded.
\<close>

theorem UncompressLZ77_pass_through:
  "inData \<noteq> [] \<Longrightarrow> inData ! 0 \<noteq> 0x11 \<Longrightarrow> UncompressLZ77 inData = Inr inData"
  by (simp add: UncompressLZ77_def getitem_nonneg word_uint_eq_iff)

theorem UncompressLZ77_pass_through_witness:
  "[0x50, 0x4B, 3 :: byte] \<noteq> [] \<and> [0x50, 0x4B, 3 :: byte] ! 0 \<noteq> 0x11 \<and>
   UncompressLZ77 [0x50, 0x4B, 3] = Inr [0x50, 0x4B, 3]"
  using UncompressLZ77_pass_through [of "[0x50, 0x4B, 3]"] by simp

text \<open>
  Claim C10. If the first byte of the input is \<open>0x11\<close> but the input is shorter than its
  header (fewer than 4 bytes, or fewer than 8 bytes when bytes 1 to 3 are all zero),
  \<^verbatim>\<open>UncompressLZ77\<close> raises \<^verbatim>\<open>IndexError\<close> while the header is read and returns no
  result.
\<close>

theorem UncompressLZ77_incomplete_header:
  assumes "inData \<noteq> []" and "inData ! 0 = 0x11"
    and "length inData < 4 \<or>
           (length inData < 8 \<and> inData ! 1 = 0 \<and> inData ! 2 = 0 \<and> inData ! 3 = 0)"
  shows "UncompressLZ77 inData = Inl IndexError"
  using assms(1,2) GetUncompressedSize_truncated [OF assms(3)]
  by (simp add: UncompressLZ77_def getitem_nonneg)

theorem UncompressLZ77_incomplete_header_witness:
  "[0x11, 0, 0, 0, 5 :: byte] \<noteq> [] \<and> [0x11, 0, 0, 0, 5 :: byte] ! 0 = 0x11 \<and>
   length [0x11, 0, 0, 0, 5 :: byte] < 8 \<and> [0x11, 0, 0, 0, 5 :: byte] ! 1 = 0 \<and>
   [0x11, 0, 0, 0, 5 :: byte] ! 2 = 0 \<and> [0x11, 0, 0, 0, 5 :: byte] ! 3 = 0 \<and>
   UncompressLZ77 [0x11, 0, 0, 0, 5] = Inl IndexError"
  using UncompressLZ77_incomplete_header [of "[0x11, 0, 0, 0, 5]"] by simp

section \<open>A worked stream\<close>

text \<open>
  Claim C3 says of the stream \<^verbatim>\<open>11 08 00 00 08 41 41 41 41 30 00\<close> that each byte its
  back-reference writes is the read source of a later byte of the same token. The token
  has distance 1 and length 4 at output index 4, so the copy has the four iterations
  \<open>y = 0, 1, 2, 3\<close>. Run one at a time on a buffer of eight different bytes, iteration
  \<open>y\<close> stores at index \<open>4 + y\<close> the byte found at index \<open>3 + y\<close>: the indices read are
  3, 4, 5 and 6. The byte stored last, at index 7, is read by no iteration.
\<close>

theorem last_copied_byte_not_read:
  "read_token [0x11, 0x08, 0x00, 0x00, 0x08, 0x41, 0x41, 0x41, 0x41, 0x30, 0x00] 9
     = Inr (1, 4, 11) \<and>
   [0..<nat 4] = [0, 1, 2, 3] \<and>
   copy_loop [1, 2, 3, 4, 5, 6, 7, 8] 4 1 [0] = Inr [1, 2, 3, 4, 4, 6, 7, 8] \<and>
   copy_loop [1, 2, 3, 4, 5, 6, 7, 8] 4 1 [1] = Inr [1, 2, 3, 4, 5, 5, 7, 8] \<and>
   copy_loop [1, 2, 3, 4, 5, 6, 7, 8] 4 1 [2] = Inr [1, 2, 3, 4, 5, 6, 6, 8] \<and>
   copy_loop [1, 2, 3, 4, 5, 6, 7, 8] 4 1 [3] = Inr [1, 2, 3, 4, 5, 6, 7, 7]"
  by code_simp

text \<open>
  Claim C3, amended. The stream \<^verbatim>\<open>11 08 00 00 08 41 41 41 41 30 00\<close> decodes to eight
  bytes \<open>0x41\<close>. The flag byte \<open>0x08\<close> is consumed from bit 7 downwards: the iterations
  for \<open>x = 7, 6, 5, 4\<close> emit the four literals and leave the cursor at input offset 9 and
  output index 4. The token at offset 9 (\<open>first = 0x30\<close>, \<open>second = 0x00\<close>) takes two
  bytes and gives distance 1 and length 4, so the distance is smaller than the length.
  The copy runs byte by byte: on any buffer of eight bytes, iteration \<open>y\<close> stores at
  index \<open>4 + y\<close> the byte at index \<open>3 + y\<close>, so that every byte written except the last
  is the read source of the next one, and the whole token fills the indices 4 to 7 with
  the byte that stood at index 3.
\<close>

theorem overlap_example_decodes:
  "UncompressLZ77 [0x11, 0x08, 0x00, 0x00, 0x08, 0x41, 0x41, 0x41, 0x41, 0x30, 0x00]
     = Inr [0x41, 0x41, 0x41, 0x41, 0x41, 0x41, 0x41, 0x41] \<and>
   for_loop [0x11, 0x08, 0x00, 0x00, 0x08, 0x41, 0x41, 0x41, 0x41, 0x30, 0x00] 8 0x08
       [7, 6, 5, 4] 5 0 [0, 0, 0, 0, 0, 0, 0, 0]
     = Inr (9, 4, [0x41, 0x41, 0x41, 0x41, 0, 0, 0, 0]) \<and>
   read_token [0x11, 0x08, 0x00, 0x00, 0x08, 0x41, 0x41, 0x41, 0x41, 0x30, 0x00] 9
     = Inr (1, 4, 11) \<and>
   copy_loop [a, b, c, d, e, f, g, h] 4 1 [0] = Inr [a, b, c, d, d, f, g, h] \<and>
   copy_loop [a, b, c, d, e, f, g, h] 4 1 [1] = Inr [a, b, c, d, e, e, g, h] \<and>
   copy_loop [a, b, c, d, e, f, g, h] 4 1 [2] = Inr [a, b, c, d, e, f, f, h] \<and>
   copy_loop [a, b, c, d, e, f, g, h] 4 1 [3] = Inr [a, b, c, d, e, f, g, g] \<and>
   copy_loop [a, b, c, d, e, f, g, h] 4 1 [0..<nat 4] = Inr [a, b, c, d, d, d, d, d]"
proof -
  have run: "UncompressLZ77 [0x11, 0x08, 0x00, 0x00, 0x08, 0x41, 0x41, 0x41, 0x41, 0x30, 0x00]
     = Inr [0x41, 0x41, 0x41, 0x41, 0x41, 0x41, 0x41, 0x41] \<and>
   for_loop [0x11, 0x08, 0x00, 0x00, 0x08, 0x41, 0x41, 0x41, 0x41, 0x30, 0x00] 8 0x08
       [7, 6, 5, 4] 5 0 [0, 0, 0, 0, 0, 0, 0, 0]
     = Inr (9, 4, [0x41, 0x41, 0x41, 0x41, 0, 0, 0, 0]) \<and>
   read_token [0x11, 0x08, 0x00, 0x00, 0x08, 0x41, 0x41, 0x41, 0x41, 0x30, 0x00] 9
     = Inr (1, 4, 11)"
    by code_simp
  have upt: "[0..<nat 4] = [0, 1, 2, 3]"
    by code_simp
  have steps: "copy_loop [a, b, c, d, e, f, g, h] 4 1 [0] = Inr [a, b, c, d, d, f, g, h]"
    "copy_loop [a, b, c, d, e, f, g, h] 4 1 [1] = Inr [a, b, c, d, e, e, g, h]"
    "copy_loop [a, b, c, d, e, f, g, h] 4 1 [2] = Inr [a, b, c, d, e, f, f, h]"
    "copy_loop [a, b, c, d, e, f, g, h] 4 1 [3] = Inr [a, b, c, d, e, f, g, g]"
    by (simp_all add: getitem_nonneg setitem_nonneg)
  have whole: "copy_loop [a, b, c, d, e, f, g, h] 4 1 [0..<nat 4] = Inr [a, b, c, d, d, d, d, d]"
    unfolding upt by (simp add: getitem_nonneg setitem_nonneg)
  from run steps whole show ?thesis by blast
qed

section \<open>The three token widths\<close>

lemma read_token_ranges:
  assumes "read_token inData offset = Inr (pos, copylen, offset')"
  shows "1 \<le> pos" and "1 \<le> copylen"
  using assms
  by (auto simp: read_token_def bind_eq_Inr Let_def split: if_splits)

lemma read_token_four_bytes:
  assumes "0 \<le> offset" "offset + 3 < int (length inData)"
    and "16 \<le> uint (inData ! nat offset)" "uint (inData ! nat offset) < 32"
  shows "read_token inData offset =
     Inr (((push_bit 8 (uint (inData ! nat (offset + 2)) AND 0xF))
             OR uint (inData ! nat (offset + 3))) + 1,
          ((push_bit 4 (uint (inData ! nat (offset + 1))))
             OR (push_bit 12 (uint (inData ! nat offset) AND 0xF))
             OR (drop_bit 4 (uint (inData ! nat (offset + 2))))) + 273,
          offset + 4)"
  using assms by (simp add: read_token_def getitem_nonneg Let_def)

lemma read_token_three_bytes:
  assumes "0 \<le> offset" "offset + 2 < int (length inData)"
    and "uint (inData ! nat offset) < 16"
  shows "read_token inData offset =
     Inr (((push_bit 8 (uint (inData ! nat (offset + 1)) AND 0xF))
             OR uint (inData ! nat (offset + 2))) + 1,
          ((push_bit 4 (uint (inData ! nat offset) AND 0xF))
             OR (drop_bit 4 (uint (inData ! nat (offset + 1))))) + 17,
          offset + 3)"
  using assms by (simp add: read_token_def getitem_nonneg Let_def)

text \<open>
  Claim C1 says that a token whose first byte satisfies \<open>16 \<le> first < 32\<close> takes three
  bytes and a length formula ending in \<open>+ 17\<close>. The source tests \<^verbatim>\<open>first >= 16\<close>
  inside \<^verbatim>\<open>first < 32\<close> and reads a fourth byte there. At the token \<^verbatim>\<open>10 23 45 67\<close>
  the source consumes four bytes and computes distance \<open>0x568\<close> and length \<open>0x345\<close>, not
  the three bytes, distance \<open>0x346\<close> and length 19 of the claim; and the stream
  \<^verbatim>\<open>11 12 00 00 40 41 10 00 00\<close>, which under the claim is a literal followed by a
  complete three-byte token, raises \<^verbatim>\<open>IndexError\<close> on the missing fourth byte.
\<close>

theorem token_16_to_31_not_three_bytes:
  "read_token [0x10, 0x23, 0x45, 0x67] 0 = Inr (0x568, 0x345, 4) \<and>
   (0x568, 0x345, 4) \<noteq>
     (((push_bit 8 (0x23 AND 0xF)) OR 0x45) + 1 :: int,
      ((push_bit 4 (0x10 AND 0xF)) OR (drop_bit 4 0x23)) + 17 :: int, 3 :: int) \<and>
   UncompressLZ77 [0x11, 0x12, 0, 0, 0x40, 0x41, 0x10, 0, 0] = Inl IndexError"
  by code_simp

text \<open>
  Claim C1, amended. For every back-reference token whose first byte satisfies
  \<open>16 \<le> first < 32\<close> and whose four bytes lie inside the input, the loop consumes exactly
  four token bytes (\<open>first\<close>, \<open>second\<close>, \<open>third\<close>, \<open>fourth\<close>) beyond the flag byte, and
  copies with distance \<open>(((third & 0xF) << 8) | fourth) + 1\<close> and length
  \<open>((second << 4) | ((first & 0xF) << 12) | (third >> 4)) + 273\<close>.
\<close>

theorem token_16_to_31_four_bytes:
  assumes "outIndex < outLength" "0 \<le> offset" "offset + 3 < int (length inData)"
    and "flags AND (push_bit x 1) \<noteq> 0"
    and "16 \<le> uint (inData ! nat offset)" "uint (inData ! nat offset) < 32"
  shows "for_loop inData outLength flags (x # xs) offset outIndex outData =
     (let first = uint (inData ! nat offset); second = uint (inData ! nat (offset + 1));
          third = uint (inData ! nat (offset + 2)); fourth = uint (inData ! nat (offset + 3));
          pos = ((push_bit 8 (third AND 0xF)) OR fourth) + 1;
          copylen = ((push_bit 4 second) OR (push_bit 12 (first AND 0xF))
                       OR (drop_bit 4 third)) + 273
      in bind (copy_loop outData outIndex pos [0..<nat copylen]) (\<lambda>outData'.
           for_loop inData outLength flags xs (offset + 4) (outIndex + copylen) outData'))"
proof -
  from assms(1,3) have "\<not> (outIndex \<ge> outLength \<or> offset \<ge> int (length inData))"
    by simp
  with assms(4) show ?thesis
    by (simp add: read_token_four_bytes [OF assms(2,3,5,6)] Let_def)
qed

theorem token_16_to_31_four_bytes_witness:
  "(1::int) < 274 \<and> (0::int) \<le> 0 \<and> (0::int) + 3 < int (length [0x10, 0, 0, 0 :: byte]) \<and>
   (0x80::int) AND (push_bit 7 1) \<noteq> 0 \<and>
   16 \<le> uint ([0x10, 0, 0, 0 :: byte] ! nat 0) \<and> uint ([0x10, 0, 0, 0 :: byte] ! nat 0) < 32 \<and>
   for_loop [0x10, 0, 0, 0] 274 0x80 [7] 0 1 (0x55 # replicate 273 0)
     = Inr (4, 274, replicate 274 0x55)"
proof -
  have h: "(1::int) < 274" "(0::int) \<le> 0" "(0::int) + 3 < int (length [0x10, 0, 0, 0 :: byte])"
   "(0x80::int) AND (push_bit 7 1) \<noteq> 0"
   "16 \<le> uint ([0x10, 0, 0, 0 :: byte] ! nat 0)" "uint ([0x10, 0, 0, 0 :: byte] ! nat 0) < 32"
    by simp_all
  have cp: "copy_loop (0x55 # replicate 273 0) 1 1 [0..<273] = Inr (replicate 274 0x55)"
    by code_simp
  from token_16_to_31_four_bytes [OF h, of "[]" "0x55 # replicate 273 0"] cp h show ?thesis
    by (simp add: Let_def)
qed

text \<open>
  Claim C2 says that a token whose first byte is below 16 takes four bytes and a length
  formula ending in \<open>+ 273\<close>. The source reaches that case through the \<^verbatim>\<open>else\<close> of
  \<^verbatim>\<open>first >= 16\<close> and reads no fourth byte. At the token \<^verbatim>\<open>01 23 45\<close> (followed by
  \<^verbatim>\<open>67\<close>) the source consumes three bytes and computes distance \<open>0x346\<close> and length 35,
  not the four bytes, distance \<open>0x568\<close> and length above 272 of the claim; and the stream
  \<^verbatim>\<open>11 12 00 00 40 41 00 00 00\<close> decodes to eighteen bytes \<open>0x41\<close> from a token of
  three bytes.
\<close>

theorem token_below_16_not_four_bytes:
  "read_token [0x01, 0x23, 0x45, 0x67] 0 = Inr (0x346, 35, 3) \<and>
   (0x346, 35, 3) \<noteq>
     (((push_bit 8 (0x45 AND 0xF)) OR 0x67) + 1 :: int,
      ((push_bit 4 0x23) OR (push_bit 12 (0x01 AND 0xF)) OR (drop_bit 4 0x45)) + 273 :: int,
      4 :: int) \<and>
   UncompressLZ77 [0x11, 0x12, 0, 0, 0x40, 0x41, 0x00, 0, 0] = Inr (replicate 18 0x41)"
  by code_simp

text \<open>
  Claim C2, amended. For every back-reference token whose first byte satisfies
  \<open>first < 16\<close> and whose three bytes lie inside the input, the loop consumes exactly
  three token bytes (\<open>first\<close>, \<open>second\<close>, \<open>third\<close>) beyond the flag byte, and copies with
  distance \<open>(((second & 0xF) << 8) | third) + 1\<close> and length
  \<open>(((first & 0xF) << 4) | (second >> 4)) + 17\<close>.
\<close>

theorem token_below_16_three_bytes:
  assumes "outIndex < outLength" "0 \<le> offset" "offset + 2 < int (length inData)"
    and "flags AND (push_bit x 1) \<noteq> 0"
    and "uint (inData ! nat offset) < 16"
  shows "for_loop inData outLength flags (x # xs) offset outIndex outData =
     (let first = uint (inData ! nat offset); second = uint (inData ! nat (offset + 1));
          third = uint (inData ! nat (offset + 2));
          pos = ((push_bit 8 (second AND 0xF)) OR third) + 1;
          copylen = ((push_bit 4 (first AND 0xF)) OR (drop_bit 4 second)) + 17
      in bind (copy_loop outData outIndex pos [0..<nat copylen]) (\<lambda>outData'.
           for_loop inData outLength flags xs (offset + 3) (outIndex + copylen) outData'))"
proof -
  from assms(1,3) have "\<not> (outIndex \<ge> outLength \<or> offset \<ge> int (length inData))"
    by simp
  with assms(4) show ?thesis
    by (simp add: read_token_three_bytes [OF assms(2,3,5)] Let_def)
qed

theorem token_below_16_three_bytes_witness:
  "(1::int) < 18 \<and> (0::int) \<le> 0 \<and> (0::int) + 2 < int (length [0x00, 0, 0 :: byte]) \<and>
   (0x80::int) AND (push_bit 7 1) \<noteq> 0 \<and>
   uint ([0x00, 0, 0 :: byte] ! nat 0) < 16 \<and>
   for_loop [0x00, 0, 0] 18 0x80 [7] 0 1 (0x55 # replicate 17 0)
     = Inr (3, 18, replicate 18 0x55)"
proof -
  have h: "(1::int) < 18" "(0::int) \<le> 0" "(0::int) + 2 < int (length [0x00, 0, 0 :: byte])"
   "(0x80::int) AND (push_bit 7 1) \<noteq> 0"
   "uint ([0x00, 0, 0 :: byte] ! nat 0) < 16"
    by simp_all
  have cp: "copy_loop (0x55 # replicate 17 0) 1 1 [0..<17] = Inr (replicate 18 0x55)"
    by code_simp
  from token_below_16_three_bytes [OF h, of "[]" "0x55 # replicate 17 0"] cp h show ?thesis
    by (simp add: Let_def)
qed

section \<open>The copy of a back-reference\<close>

lemma copy_loop_Inr:
  assumes "copy_loop d oi pos ys = Inr d'" "0 \<le> oi"
  shows "length d' = length d \<and> (\<forall>i. (\<forall>y\<in>set ys. i \<noteq> nat (oi + int y)) \<longrightarrow> d' ! i = d ! i)
         \<and> (\<forall>y\<in>set ys. oi + int y < int (length d))"
  using assms
proof (induction ys arbitrary: d)
  case Nil
  then show ?case by simp
next
  case (Cons y ys)
  from Cons.prems obtain v d1 where
    rd: "getitem d (oi - pos + int y) = Inr v" and
    wr: "setitem d (oi + int y) v = Inr d1" and
    rest: "copy_loop d1 oi pos ys = Inr d'"
    by (auto simp: bind_eq_Inr)
  from wr Cons.prems(2) have d1: "d1 = d[nat (oi + int y) := v]" and lt: "oi + int y < int (length d)"
    by (auto simp: setitem_nonneg split: if_splits)
  from Cons.IH [OF rest Cons.prems(2)] d1 lt show ?case
    by auto
qed

lemma copy_loop_upt_Inr:
  assumes "copy_loop d oi pos [0..<n] = Inr d'" "0 \<le> oi"
  shows "length d' = length d" 
    and "\<And>i. i < nat oi \<Longrightarrow> d' ! i = d ! i"
    and "\<And>i. nat (oi + int n) \<le> i \<Longrightarrow> d' ! i = d ! i"
    and "oi + int n \<le> int (length d) \<or> n = 0"
proof -
  note f = copy_loop_Inr [OF assms]
  from f show "length d' = length d" by simp
  show "d' ! i = d ! i" if "i < nat oi" for i
  proof -
    from that assms(2) have "\<forall>y\<in>set [0..<n]. i \<noteq> nat (oi + int y)" by auto
    with f show ?thesis by blast
  qed
  show "d' ! i = d ! i" if "nat (oi + int n) \<le> i" for i
  proof -
    from that assms(2) have "\<forall>y\<in>set [0..<n]. i \<noteq> nat (oi + int y)" by auto
    with f show ?thesis by blast
  qed
  show "oi + int n \<le> int (length d) \<or> n = 0"
  proof (cases n)
    case 0
    then show ?thesis by simp
  next
    case (Suc m)
    then have "m \<in> set [0..<n]" by simp
    with f have "oi + int m < int (length d)" by blast
    with Suc show ?thesis by simp
  qed
qed

lemma copy_loop_succeeds:
  assumes "0 \<le> oi" "1 \<le> pos" "pos \<le> oi + int k + int (length d)"
    and "oi + int n \<le> int (length d)"
  shows "\<exists>d'. copy_loop d oi pos [k..<n] = Inr d'"
  using assms
proof (induction "n - k" arbitrary: k d)
  case 0
  then show ?case by simp
next
  case (Suc m)
  then have kn: "k < n" by simp
  then have upt: "[k..<n] = k # [Suc k..<n]" by (simp add: upt_conv_Cons)
  let ?r = "oi - pos + int k"
  from Suc.prems kn have r: "- int (length d) \<le> ?r" "?r < int (length d)" by auto
  then have "\<exists>v. getitem d ?r = Inr v"
    by (cases "0 \<le> ?r") (simp_all add: getitem_def)
  then obtain v where rd: "getitem d ?r = Inr v" ..
  from Suc.prems kn have wr: "setitem d (oi + int k) v = Inr (d[nat (oi + int k) := v])"
    by (simp add: setitem_nonneg)
  have "\<exists>d'. copy_loop (d[nat (oi + int k) := v]) oi pos [Suc k..<n] = Inr d'"
    using Suc.hyps Suc.prems kn by (intro Suc.hyps(1)) auto
  with rd wr upt show ?case by simp
qed

lemma copy_loop_wrapped_step:
  assumes "oi - pos + int y < 0" "- int (length d) \<le> oi - pos + int y"
    and "0 \<le> oi + int y" "oi + int y < int (length d)"
  shows "copy_loop d oi pos (y # ys)
           = copy_loop (d[nat (oi + int y) := d ! nat (int (length d) + (oi - pos + int y))]) oi pos ys"
  using assms by (simp add: getitem_def setitem_nonneg)

lemma copy_loop_wrapped_zero:
  assumes "copy_loop d oi pos [k..<n] = Inr d'" "0 \<le> oi" "pos \<le> int (length d)"
    and "\<forall>i. nat (oi + int k) \<le> i \<and> i < length d \<longrightarrow> d ! i = 0"
  shows "\<forall>y. k \<le> y \<and> y < n \<and> oi - pos + int y < 0 \<longrightarrow> d' ! nat (oi + int y) = (0::byte)"
  using assms
proof (induction "n - k" arbitrary: k d)
  case 0
  then have "n \<le> k" by simp
  then have "\<not> (k \<le> y \<and> y < n)" for y by simp
  then show ?case by blast
next
  case (Suc m)
  then have kn: "k < n" by simp
  then have upt: "[k..<n] = k # [Suc k..<n]" by (simp add: upt_conv_Cons)
  from Suc.prems(1) upt obtain v d1 where
    rd: "getitem d (oi - pos + int k) = Inr v" and
    wr: "setitem d (oi + int k) v = Inr d1" and
    rest: "copy_loop d1 oi pos [Suc k..<n] = Inr d'"
    by (auto simp: bind_eq_Inr)
  from wr Suc.prems(2) have d1: "d1 = d[nat (oi + int k) := v]" and lt: "oi + int k < int (length d)"
    by (auto simp: setitem_nonneg split: if_splits)
  have tail1: "\<forall>i. nat (oi + int (Suc k)) \<le> i \<and> i < length d1 \<longrightarrow> d1 ! i = 0"
    using Suc.prems(2,4) d1 by (auto simp: nat_add_distrib)
  have later: "\<forall>y. Suc k \<le> y \<and> y < n \<and> oi - pos + int y < 0 \<longrightarrow> d' ! nat (oi + int y) = 0"
    using Suc.hyps(2) Suc.prems(2,3) kn d1 by (intro Suc.hyps(1) [OF _ rest _ _ tail1]) auto
  have here: "d' ! nat (oi + int k) = 0" if w: "oi - pos + int k < 0"
  proof -
    from rd w have v: "v = d ! nat (int (length d) + (oi - pos + int k))"
      by (auto simp: getitem_def split: if_splits)
    from Suc.prems(2,3) w lt have "nat (oi + int k) \<le> nat (int (length d) + (oi - pos + int k))"
      "nat (int (length d) + (oi - pos + int k)) < length d" by auto
    with Suc.prems(4) v have "v = 0" by blast
    have "\<forall>y\<in>set [Suc k..<n]. nat (oi + int k) \<noteq> nat (oi + int y)"
      using Suc.prems(2) by auto
    with copy_loop_Inr [OF rest Suc.prems(2)] have "d' ! nat (oi + int k) = d1 ! nat (oi + int k)"
      by blast
    with d1 lt Suc.prems(2) \<open>v = 0\<close> show ?thesis by simp
  qed
  show ?case
  proof (intro allI impI)
    fix y assume y: "k \<le> y \<and> y < n \<and> oi - pos + int y < 0"
    show "d' ! nat (oi + int y) = 0"
    proof (cases "y = k")
      case True
      with y here show ?thesis by simp
    next
      case False
      with y have "Suc k \<le> y" by simp
      with y later show ?thesis by blast
    qed
  qed
qed

lemma copy_loop_before_buffer:
  assumes "0 < n" "oi - pos < - int (length d)"
  shows "copy_loop d oi pos [0..<n] = Inl IndexError"
proof -
  from assms(1) have "[0..<n] = 0 # [Suc 0..<n]" by (simp add: upt_conv_Cons)
  moreover from assms(2) have "getitem d (oi - pos + int 0) = Inl IndexError"
    by (simp add: getitem_def)
  ultimately show ?thesis by simp
qed

lemma copy_loop_overrun:
  assumes "0 \<le> oi" "int (length d) < oi + int n" "0 < n"
  shows "copy_loop d oi pos [0..<n] = Inl IndexError"
proof (cases "copy_loop d oi pos [0..<n]")
  case (Inl e)
  then show ?thesis by (cases e) simp
next
  case (Inr d')
  from copy_loop_upt_Inr(4) [OF Inr assms(1)] assms(2,3) show ?thesis by auto
qed

text \<open>
  Claim C5 says that every token whose distance exceeds the current output index ends in
  a reported failure. The source has no such test, and a negative subscript of a
  bytearray counts from its end. In the stream \<^verbatim>\<open>11 04 00 00 80 30 00\<close> the first token
  has distance 1 at output index 0; the decoder returns four zero bytes and reports
  nothing.
\<close>

theorem backref_before_start_not_reported:
  "read_token [0x11, 4, 0, 0, 0x80, 0x30, 0] 5 = Inr (1, 4, 7) \<and>
   UncompressLZ77 [0x11, 4, 0, 0, 0x80, 0x30, 0] = Inr [0, 0, 0, 0]"
  by code_simp

text \<open>
  Claim C5, amended. For every back-reference token whose distance exceeds the current
  output index, the decoder raises \<^verbatim>\<open>IndexError\<close> at that token if the distance is
  greater than \<open>outIndex + outLength\<close> (the first read index lies below \<open>-outLength\<close>)
  or the copy would end past the buffer (\<open>outIndex + copylen > outLength\<close>), and only
  then: in every other case the copy is carried out with wrapped read indices, nothing
  is reported, and the inner loop goes on to the next token.
\<close>

theorem backref_before_start_reported_iff:
  assumes "outIndex < outLength" "offset < int (length inData)"
    and "flags AND (push_bit x 1) \<noteq> 0"
    and "read_token inData offset = Inr (pos, copylen, offset')"
    and "int (length outData) = outLength"
    and "0 \<le> outIndex" "outIndex < pos"
  shows "(outIndex + outLength < pos \<or> outLength < outIndex + copylen \<longrightarrow>
            for_loop inData outLength flags (x # xs) offset outIndex outData = Inl IndexError)
       \<and> (pos \<le> outIndex + outLength \<and> outIndex + copylen \<le> outLength \<longrightarrow>
            (\<exists>outData'. copy_loop outData outIndex pos [0..<nat copylen] = Inr outData'
               \<and> for_loop inData outLength flags (x # xs) offset outIndex outData
                 = for_loop inData outLength flags xs offset' (outIndex + copylen) outData'))"
proof (intro conjI impI)
  note rg = read_token_ranges [OF assms(4)]
  have step: "for_loop inData outLength flags (x # xs) offset outIndex outData
    = bind (copy_loop outData outIndex pos [0..<nat copylen]) (\<lambda>outData'.
          for_loop inData outLength flags xs offset' (outIndex + copylen) outData')"
    using assms(1-4) by simp
  {
    assume bad: "outIndex + outLength < pos \<or> outLength < outIndex + copylen"
    have "copy_loop outData outIndex pos [0..<nat copylen] = Inl IndexError"
    proof (cases "outIndex + outLength < pos")
      case True
      from rg(2) have "0 < nat copylen" by simp
      moreover from True assms(5) have "outIndex - pos < - int (length outData)" by simp
      ultimately show ?thesis by (rule copy_loop_before_buffer)
    next
      case False
      with bad rg(2) assms(5) have "int (length outData) < outIndex + int (nat copylen)" by simp
      moreover from rg(2) have "0 < nat copylen" by simp
      ultimately show ?thesis using assms(6) by (intro copy_loop_overrun)
    qed
    with step show "for_loop inData outLength flags (x # xs) offset outIndex outData = Inl IndexError"
      by simp
  }
  {
    assume ok: "pos \<le> outIndex + outLength \<and> outIndex + copylen \<le> outLength"
    with assms(5,6) rg have "\<exists>d'. copy_loop outData outIndex pos [0..<nat copylen] = Inr d'"
      by (intro copy_loop_succeeds) auto
    then obtain d' where "copy_loop outData outIndex pos [0..<nat copylen] = Inr d'" ..
    with step show "\<exists>outData'. copy_loop outData outIndex pos [0..<nat copylen] = Inr outData'
               \<and> for_loop inData outLength flags (x # xs) offset outIndex outData
                 = for_loop inData outLength flags xs offset' (outIndex + copylen) outData'"
      by simp
  }
qed

theorem backref_before_start_reported_iff_witness:
  "(0::int) < 4 \<and> (5::int) < int (length [0x11, 4, 0, 0, 0x80, 0x30, 0x05 :: byte]) \<and>
   (0x80::int) AND (push_bit 7 1) \<noteq> 0 \<and>
   read_token [0x11, 4, 0, 0, 0x80, 0x30, 0x05] 5 = Inr (6, 4, 7) \<and>
   int (length [0, 0, 0, 0 :: byte]) = 4 \<and> (0::int) \<le> 0 \<and> (0::int) < 6 \<and>
   (0::int) + 4 < 6 \<and>
   for_loop [0x11, 4, 0, 0, 0x80, 0x30, 0x05] 4 0x80 [7, 6, 5, 4, 3, 2, 1, 0] 5 0 [0, 0, 0, 0]
     = Inl IndexError \<and>
   (5::int) < int (length [0x11, 4, 0, 0, 0x80, 0x30, 0x00 :: byte]) \<and>
   read_token [0x11, 4, 0, 0, 0x80, 0x30, 0x00] 5 = Inr (1, 4, 7) \<and>
   (0::int) < 1 \<and> (1::int) \<le> 0 + 4 \<and> (0::int) + 4 \<le> 4 \<and>
   for_loop [0x11, 4, 0, 0, 0x80, 0x30, 0x00] 4 0x80 [7, 6, 5, 4, 3, 2, 1, 0] 5 0 [0, 0, 0, 0]
     = Inr (7, 4, [0, 0, 0, 0])"
proof -
  have h: "(0::int) < 4" "(5::int) < int (length [0x11, 4, 0, 0, 0x80, 0x30, 0x05 :: byte])"
    "(0x80::int) AND (push_bit 7 1) \<noteq> 0"
    "read_token [0x11, 4, 0, 0, 0x80, 0x30, 0x05] 5 = Inr (6, 4, 7)"
    "int (length [0, 0, 0, 0 :: byte]) = 4" "(0::int) \<le> 0" "(0::int) < 6"
    by (simp_all add: read_token_def getitem_nonneg)
  have far: "(0::int) + 4 < 6" by simp
  from backref_before_start_reported_iff [OF h, of "[6, 5, 4, 3, 2, 1, 0]"] far
  have a: "for_loop [0x11, 4, 0, 0, 0x80, 0x30, 0x05] 4 0x80 [7, 6, 5, 4, 3, 2, 1, 0] 5 0 [0, 0, 0, 0]
     = Inl IndexError" by blast
  have k: "(0::int) < 4" "(5::int) < int (length [0x11, 4, 0, 0, 0x80, 0x30, 0x00 :: byte])"
    "(0x80::int) AND (push_bit 7 1) \<noteq> 0"
    "read_token [0x11, 4, 0, 0, 0x80, 0x30, 0x00] 5 = Inr (1, 4, 7)"
    "int (length [0, 0, 0, 0 :: byte]) = 4" "(0::int) \<le> 0" "(0::int) < 1"
    by (simp_all add: read_token_def getitem_nonneg)
  have fits: "(1::int) \<le> 0 + 4" "(0::int) + 4 \<le> 4" by simp_all
  from backref_before_start_reported_iff [OF k, of "[6, 5, 4, 3, 2, 1, 0]"] fits
  obtain d' where c: "copy_loop [0, 0, 0, 0] 0 1 [0..<nat 4] = Inr d'"
    and f: "for_loop [0x11, 4, 0, 0, 0x80, 0x30, 0x00] 4 0x80 [7, 6, 5, 4, 3, 2, 1, 0] 5 0 [0, 0, 0, 0]
      = for_loop [0x11, 4, 0, 0, 0x80, 0x30, 0x00] 4 0x80 [6, 5, 4, 3, 2, 1, 0] 7 (0 + 4) d'"
    by blast
  have "copy_loop [0, 0, 0, 0] 0 1 [0..<nat 4] = Inr [0, 0, 0, 0 :: byte]" by code_simp
  with c have "d' = [0, 0, 0, 0]" by simp
  with f have b: "for_loop [0x11, 4, 0, 0, 0x80, 0x30, 0x00] 4 0x80 [7, 6, 5, 4, 3, 2, 1, 0] 5 0 [0, 0, 0, 0]
     = Inr (7, 4, [0, 0, 0, 0])" by simp
  from h far a k fits b show ?thesis by blast
qed

text \<open>
  Claim C9 says that a copy whose read indices stay at or above \<open>-outLength\<close> raises
  nothing and reads from the zero-initialised tail. Two things fail. In the stream
  \<^verbatim>\<open>11 04 00 00 80 50 02\<close> the token has distance 3 and length 6 at output index 0: its
  read indices \<open>-3 .. 2\<close> are all valid subscripts of the four-byte buffer, but the store
  at index 4 raises \<^verbatim>\<open>IndexError\<close>. In the stream \<^verbatim>\<open>11 05 00 00 20 41 42 20 05\<close>
  the token has distance 6 and length 3 at output index 2: its read indices \<open>-4, -3, -2\<close>
  wrap to the positions 1, 2, 3, of which the first holds the literal \<open>0x42\<close> and the
  others hold bytes this copy has just written, so the output ends in \<open>0x42\<close> bytes, not
  in zeros.
\<close>

theorem wrapped_copy_overrun_and_nonzero:
  "read_token [0x11, 4, 0, 0, 0x80, 0x50, 0x02] 5 = Inr (3, 6, 7) \<and>
   UncompressLZ77 [0x11, 4, 0, 0, 0x80, 0x50, 0x02] = Inl IndexError \<and>
   read_token [0x11, 5, 0, 0, 0x20, 0x41, 0x42, 0x20, 0x05] 7 = Inr (6, 3, 9) \<and>
   UncompressLZ77 [0x11, 5, 0, 0, 0x20, 0x41, 0x42, 0x20, 0x05]
     = Inr [0x41, 0x42, 0x42, 0x42, 0x42]"
  by code_simp

text \<open>
  Claim C9, amended. A back-reference whose distance exceeds the current output index
  raises no error as long as every read index \<open>outIndex - pos + y\<close> is at least
  \<open>-outLength\<close> and the copy ends inside the buffer (\<open>outIndex + copylen \<le> outLength\<close>).
  Each iteration with a negative read index reads position
  \<open>outLength + (outIndex - pos + y)\<close> of the buffer as it stands and stores that byte at
  \<open>outIndex + y\<close>. When moreover the distance is at most \<open>outLength\<close> and the buffer is
  zero from \<open>outIndex\<close> on (as it is in the decoder), that position lies in the
  zero-initialised tail and the byte stored is zero.
\<close>

theorem backref_wraps_around:
  assumes "0 \<le> outIndex" "outIndex < pos"
    and "pos \<le> outIndex + int (length outData)"
    and "outIndex + int n \<le> int (length outData)"
  shows "(\<exists>outData'. copy_loop outData outIndex pos [0..<n] = Inr outData'
            \<and> length outData' = length outData)
       \<and> (\<forall>d y ys. length d = length outData \<and> y < n \<and> outIndex - pos + int y < 0 \<longrightarrow>
            copy_loop d outIndex pos (y # ys)
              = copy_loop (d[nat (outIndex + int y)
                               := d ! nat (int (length outData) + (outIndex - pos + int y))])
                  outIndex pos ys)
       \<and> (pos \<le> int (length outData)
            \<and> (\<forall>i. nat outIndex \<le> i \<and> i < length outData \<longrightarrow> outData ! i = 0) \<longrightarrow>
          (\<forall>outData' y. copy_loop outData outIndex pos [0..<n] = Inr outData'
               \<and> y < n \<and> outIndex - pos + int y < 0 \<longrightarrow> outData' ! nat (outIndex + int y) = 0))"
proof (intro conjI)
  from assms have "\<exists>d'. copy_loop outData outIndex pos [0..<n] = Inr d'"
    by (intro copy_loop_succeeds) auto
  then obtain d' where run: "copy_loop outData outIndex pos [0..<n] = Inr d'" ..
  from copy_loop_upt_Inr(1) [OF run assms(1)] run
  show "\<exists>outData'. copy_loop outData outIndex pos [0..<n] = Inr outData'
            \<and> length outData' = length outData"
    by blast
next
  show "\<forall>d y ys. length d = length outData \<and> y < n \<and> outIndex - pos + int y < 0 \<longrightarrow>
            copy_loop d outIndex pos (y # ys)
              = copy_loop (d[nat (outIndex + int y)
                               := d ! nat (int (length outData) + (outIndex - pos + int y))])
                  outIndex pos ys"
  proof (intro allI impI)
    fix d :: "byte list" and y ys
    assume a: "length d = length outData \<and> y < n \<and> outIndex - pos + int y < 0"
    with assms have "outIndex - pos + int y < 0" "- int (length d) \<le> outIndex - pos + int y"
      "0 \<le> outIndex + int y" "outIndex + int y < int (length d)"
      by auto
    from copy_loop_wrapped_step [OF this] a
    show "copy_loop d outIndex pos (y # ys)
              = copy_loop (d[nat (outIndex + int y)
                               := d ! nat (int (length outData) + (outIndex - pos + int y))])
                  outIndex pos ys"
      by simp
  qed
next
  show "pos \<le> int (length outData)
            \<and> (\<forall>i. nat outIndex \<le> i \<and> i < length outData \<longrightarrow> outData ! i = 0) \<longrightarrow>
          (\<forall>outData' y. copy_loop outData outIndex pos [0..<n] = Inr outData'
               \<and> y < n \<and> outIndex - pos + int y < 0 \<longrightarrow> outData' ! nat (outIndex + int y) = 0)"
  proof (intro impI allI)
    fix outData' y
    assume p: "pos \<le> int (length outData)
            \<and> (\<forall>i. nat outIndex \<le> i \<and> i < length outData \<longrightarrow> outData ! i = 0)"
      and r: "copy_loop outData outIndex pos [0..<n] = Inr outData'
               \<and> y < n \<and> outIndex - pos + int y < 0"
    from p have tail: "\<forall>i. nat (outIndex + int 0) \<le> i \<and> i < length outData \<longrightarrow> outData ! i = 0"
      by simp
    from r have run: "copy_loop outData outIndex pos [0..<n] = Inr outData'" by simp
    from copy_loop_wrapped_zero [OF run assms(1) _ tail] p r
    show "outData' ! nat (outIndex + int y) = 0" by simp
  qed
qed

theorem backref_wraps_around_witness:
  "(0::int) \<le> 2 \<and> (2::int) < 4 \<and> (4::int) \<le> 2 + int (length [0x41, 0x42, 0, 0, 0 :: byte]) \<and>
   (2::int) + int 3 \<le> int (length [0x41, 0x42, 0, 0, 0 :: byte]) \<and>
   copy_loop [0x41, 0x42, 0, 0, 0] 2 4 [0..<3] = Inr [0x41, 0x42, 0, 0, 0x41] \<and>
   copy_loop [0x41, 0x42, 0, 0, 0] 2 4 [0, 1, 2]
     = copy_loop ([0x41, 0x42, 0, 0, 0][2 := [0x41, 0x42, 0, 0, 0] ! 3]) 2 4 [1, 2]"
proof -
  have h: "(0::int) \<le> 2" "(2::int) < 4" "(4::int) \<le> 2 + int (length [0x41, 0x42, 0, 0, 0 :: byte])"
   "(2::int) + int 3 \<le> int (length [0x41, 0x42, 0, 0, 0 :: byte])"
    by simp_all
  note t = backref_wraps_around [OF h]
  have e: "copy_loop [0x41, 0x42, 0, 0, 0] 2 4 [0..<3] = Inr [0x41, 0x42, 0, 0, 0x41]"
    by code_simp
  from t have "copy_loop [0x41, 0x42, 0, 0, 0] 2 4 (0 # [1, 2])
     = copy_loop ([0x41, 0x42, 0, 0, 0][nat (2 + int 0) := [0x41, 0x42, 0, 0, 0] ! nat (int (length [0x41, 0x42, 0, 0, 0 :: byte]) + (2 - 4 + int 0))]) 2 4 [1, 2]"
    by (elim conjE allE [where x = "[0x41, 0x42, 0, 0, 0]"] allE [where x = "0::nat"] allE [where x = "[1, 2 :: nat]"]) simp
  then have "copy_loop [0x41, 0x42, 0, 0, 0] 2 4 [0, 1, 2]
     = copy_loop ([0x41, 0x42, 0, 0, 0][2 := [0x41, 0x42, 0, 0, 0] ! 3]) 2 4 [1, 2]"
    by simp
  with h e show ?thesis by blast
qed

section \<open>What a run of the loops keeps\<close>

text \<open>A property of the cursor kept by both kinds of token is kept by the inner loop.\<close>

lemma for_loop_invariant:
  assumes run: "for_loop inData outLength flags xs offset outIndex outData
                  = Inr (offset', outIndex', outData')"
    and start: "P offset outIndex outData"
    and literal: "\<And>offset outIndex outData v d1.
        P offset outIndex outData \<Longrightarrow> outIndex < outLength \<Longrightarrow> offset < int (length inData) \<Longrightarrow>
        getitem inData offset = Inr v \<Longrightarrow> setitem outData outIndex v = Inr d1 \<Longrightarrow>
        P (offset + 1) (outIndex + 1) d1"
    and backref: "\<And>offset outIndex outData pos copylen off1 d1.
        P offset outIndex outData \<Longrightarrow> outIndex < outLength \<Longrightarrow> offset < int (length inData) \<Longrightarrow>
        read_token inData offset = Inr (pos, copylen, off1) \<Longrightarrow>
        copy_loop outData outIndex pos [0..<nat copylen] = Inr d1 \<Longrightarrow>
        P off1 (outIndex + copylen) d1"
  shows "P offset' outIndex' outData'"
  using run start
proof (induction xs arbitrary: offset outIndex outData)
  case Nil
  then show ?case by simp
next
  case (Cons x xs)
  show ?case
  proof (cases "outIndex \<ge> outLength \<or> offset \<ge> int (length inData)")
    case True
    with Cons.prems show ?thesis by simp
  next
    case False
    then have g: "outIndex < outLength" "offset < int (length inData)" by auto
    show ?thesis
    proof (cases "flags AND (push_bit x 1) \<noteq> 0")
      case True
      with False Cons.prems(1) obtain pos copylen off1 d1 where
        tok: "read_token inData offset = Inr (pos, copylen, off1)" and
        cp: "copy_loop outData outIndex pos [0..<nat copylen] = Inr d1" and
        rest: "for_loop inData outLength flags xs off1 (outIndex + copylen) d1
                 = Inr (offset', outIndex', outData')"
        by (auto simp: bind_eq_Inr)
      from backref [OF Cons.prems(2) g tok cp] have "P off1 (outIndex + copylen) d1" .
      with Cons.IH [OF rest] show ?thesis .
    next
      case lit: False
      with False Cons.prems(1) obtain v d1 where
        rd: "getitem inData offset = Inr v" and
        wr: "setitem outData outIndex v = Inr d1" and
        rest: "for_loop inData outLength flags xs (offset + 1) (outIndex + 1) d1
                 = Inr (offset', outIndex', outData')"
        by (auto simp: bind_eq_Inr)
      from literal [OF Cons.prems(2) g rd wr] have "P (offset + 1) (outIndex + 1) d1" .
      with Cons.IH [OF rest] show ?thesis .
    qed
  qed
qed

lemma while_loop_invariant:
  assumes run: "while_loop inData outLength offset outIndex outData
                  = Inr (offset', outIndex', outData')"
    and start: "P offset outIndex outData"
    and flag: "\<And>offset outIndex outData.
        P offset outIndex outData \<Longrightarrow> offset < int (length inData) \<Longrightarrow> P (offset + 1) outIndex outData"
    and literal: "\<And>offset outIndex outData v d1.
        P offset outIndex outData \<Longrightarrow> outIndex < outLength \<Longrightarrow> offset < int (length inData) \<Longrightarrow>
        getitem inData offset = Inr v \<Longrightarrow> setitem outData outIndex v = Inr d1 \<Longrightarrow>
        P (offset + 1) (outIndex + 1) d1"
    and backref: "\<And>offset outIndex outData pos copylen off1 d1.
        P offset outIndex outData \<Longrightarrow> outIndex < outLength \<Longrightarrow> offset < int (length inData) \<Longrightarrow>
        read_token inData offset = Inr (pos, copylen, off1) \<Longrightarrow>
        copy_loop outData outIndex pos [0..<nat copylen] = Inr d1 \<Longrightarrow>
        P off1 (outIndex + copylen) d1"
  shows "P offset' outIndex' outData'"
  using assms
proof (induction inData outLength offset outIndex outData rule: while_loop.induct)
  case (1 inData outLength offset outIndex outData)
  note run = "1.prems"(1) and start = "1.prems"(2) and flag = "1.prems"(3)
    and literal = "1.prems"(4) and backref = "1.prems"(5)
  show ?case
  proof (cases "outIndex < outLength \<and> offset < int (length inData)")
    case False
    with run start show ?thesis by (simp add: while_loop_unfold)
  next
    case True
    with run obtain fl oa ia da where
      rd: "getitem inData offset = Inr fl" and
      inner: "for_loop inData outLength (uint fl) (rev [0..<8]) (offset + 1) outIndex outData
                = Inr (oa, ia, da)" and
      rest: "while_loop inData outLength oa ia da = Inr (offset', outIndex', outData')"
      by (subst (asm) while_loop_unfold) (auto simp: bind_eq_Inr)
    from flag [OF start] True have "P (offset + 1) outIndex outData" by simp
    with inner have "P oa ia da"
      using literal backref by (rule for_loop_invariant [where P = P])
    then show ?thesis
      by (rule "1.IH" [OF True rd inner refl refl rest]) (fact flag, fact literal, fact backref)
  qed
qed

lemma for_loop_frame:
  assumes run: "for_loop inData outLength flags xs offset outIndex outData
                  = Inr (offset', outIndex', outData')"
    and nonneg: "0 \<le> outIndex"
  shows "offset \<le> offset' \<and> outIndex \<le> outIndex' \<and> length outData' = length outData
         \<and> (\<forall>i. i < nat outIndex \<longrightarrow> outData' ! i = outData ! i)
         \<and> (\<forall>i. nat outIndex' \<le> i \<longrightarrow> outData' ! i = outData ! i)"
proof (rule for_loop_invariant [where P = "\<lambda>off oi d. offset \<le> off \<and> outIndex \<le> oi
         \<and> length d = length outData
         \<and> (\<forall>i. i < nat outIndex \<longrightarrow> d ! i = outData ! i)
         \<and> (\<forall>i. nat oi \<le> i \<longrightarrow> d ! i = outData ! i)", OF run])
  show "offset \<le> offset \<and> outIndex \<le> outIndex \<and> length outData = length outData
         \<and> (\<forall>i. i < nat outIndex \<longrightarrow> outData ! i = outData ! i)
         \<and> (\<forall>i. nat outIndex \<le> i \<longrightarrow> outData ! i = outData ! i)"
    by simp
next
  fix off oi :: int and d d1 :: "byte list" and v :: byte
  assume inv: "offset \<le> off \<and> outIndex \<le> oi \<and> length d = length outData
         \<and> (\<forall>i. i < nat outIndex \<longrightarrow> d ! i = outData ! i)
         \<and> (\<forall>i. nat oi \<le> i \<longrightarrow> d ! i = outData ! i)"
    and wr: "setitem d oi v = Inr d1"
  from inv nonneg have oi: "0 \<le> oi" by simp
  with wr have d1: "d1 = d[nat oi := v]"
    by (auto simp: setitem_nonneg split: if_splits)
  from inv nonneg oi show "offset \<le> off + 1 \<and> outIndex \<le> oi + 1 \<and> length d1 = length outData
         \<and> (\<forall>i. i < nat outIndex \<longrightarrow> d1 ! i = outData ! i)
         \<and> (\<forall>i. nat (oi + 1) \<le> i \<longrightarrow> d1 ! i = outData ! i)"
    unfolding d1 by auto
next
  fix off oi pos copylen off1 :: int and d d1 :: "byte list"
  assume inv: "offset \<le> off \<and> outIndex \<le> oi \<and> length d = length outData
         \<and> (\<forall>i. i < nat outIndex \<longrightarrow> d ! i = outData ! i)
         \<and> (\<forall>i. nat oi \<le> i \<longrightarrow> d ! i = outData ! i)"
    and tok: "read_token inData off = Inr (pos, copylen, off1)"
    and cp: "copy_loop d oi pos [0..<nat copylen] = Inr d1"
  from inv nonneg have oi: "0 \<le> oi" by simp
  from read_token_ranges(2) [OF tok] have cl: "int (nat copylen) = copylen" "0 \<le> copylen" by simp_all
  from read_token_offset [OF tok] have off1: "off \<le> off1" by auto
  note f = copy_loop_upt_Inr [OF cp oi]
  have a: "d1 ! i = outData ! i" if "i < nat outIndex" for i
  proof -
    from inv have "outIndex \<le> oi" by simp
    with that have "i < nat oi" by linarith
    with f(2) have "d1 ! i = d ! i" by blast
    with inv that show ?thesis by simp
  qed
  have b: "d1 ! i = outData ! i" if "nat (oi + copylen) \<le> i" for i
  proof -
    from that cl have "nat (oi + int (nat copylen)) \<le> i" by simp
    with f(3) have "d1 ! i = d ! i" by blast
    moreover from that oi cl have "nat oi \<le> i" by linarith
    ultimately show ?thesis using inv by simp
  qed
  from inv off1 cl f(1) a b
  show "offset \<le> off1 \<and> outIndex \<le> oi + copylen \<and> length d1 = length outData
         \<and> (\<forall>i. i < nat outIndex \<longrightarrow> d1 ! i = outData ! i)
         \<and> (\<forall>i. nat (oi + copylen) \<le> i \<longrightarrow> d1 ! i = outData ! i)"
    by simp
qed

lemma while_loop_frame:
  assumes run: "while_loop inData outLength offset outIndex outData
                  = Inr (offset', outIndex', outData')"
    and nonneg: "0 \<le> outIndex"
  shows "offset \<le> offset' \<and> outIndex \<le> outIndex' \<and> length outData' = length outData
         \<and> (\<forall>i. i < nat outIndex \<longrightarrow> outData' ! i = outData ! i)
         \<and> (\<forall>i. nat outIndex' \<le> i \<longrightarrow> outData' ! i = outData ! i)"
proof (rule while_loop_invariant [where P = "\<lambda>off oi d. offset \<le> off \<and> outIndex \<le> oi
         \<and> length d = length outData
         \<and> (\<forall>i. i < nat outIndex \<longrightarrow> d ! i = outData ! i)
         \<and> (\<forall>i. nat oi \<le> i \<longrightarrow> d ! i = outData ! i)", OF run])
  show "offset \<le> offset \<and> outIndex \<le> outIndex \<and> length outData = length outData
         \<and> (\<forall>i. i < nat outIndex \<longrightarrow> outData ! i = outData ! i)
         \<and> (\<forall>i. nat outIndex \<le> i \<longrightarrow> outData ! i = outData ! i)"
    by simp
next
  fix off oi :: int and d :: "byte list"
  assume "offset \<le> off \<and> outIndex \<le> oi \<and> length d = length outData
         \<and> (\<forall>i. i < nat outIndex \<longrightarrow> d ! i = outData ! i)
         \<and> (\<forall>i. nat oi \<le> i \<longrightarrow> d ! i = outData ! i)"
  then show "offset \<le> off + 1 \<and> outIndex \<le> oi \<and> length d = length outData
         \<and> (\<forall>i. i < nat outIndex \<longrightarrow> d ! i = outData ! i)
         \<and> (\<forall>i. nat oi \<le> i \<longrightarrow> d ! i = outData ! i)"
    by simp
next
  fix off oi :: int and d d1 :: "byte list" and v :: byte
  assume inv: "offset \<le> off \<and> outIndex \<le> oi \<and> length d = length outData
         \<and> (\<forall>i. i < nat outIndex \<longrightarrow> d ! i = outData ! i)
         \<and> (\<forall>i. nat oi \<le> i \<longrightarrow> d ! i = outData ! i)"
    and g: "oi < outLength" "off < int (length inData)"
    and rd: "getitem inData off = Inr v"
    and wr: "setitem d oi v = Inr d1"
  from inv nonneg have oi: "0 \<le> oi" by simp
  from g rd wr have "for_loop inData outLength 0 [0] off oi d = Inr (off + 1, oi + 1, d1)"
    by simp
  from for_loop_frame [OF this oi] inv nonneg oi
  show "offset \<le> off + 1 \<and> outIndex \<le> oi + 1 \<and> length d1 = length outData
         \<and> (\<forall>i. i < nat outIndex \<longrightarrow> d1 ! i = outData ! i)
         \<and> (\<forall>i. nat (oi + 1) \<le> i \<longrightarrow> d1 ! i = outData ! i)"
    by auto
next
  fix off oi pos copylen off1 :: int and d d1 :: "byte list"
  assume inv: "offset \<le> off \<and> outIndex \<le> oi \<and> length d = length outData
         \<and> (\<forall>i. i < nat outIndex \<longrightarrow> d ! i = outData ! i)
         \<and> (\<forall>i. nat oi \<le> i \<longrightarrow> d ! i = outData ! i)"
    and g: "oi < outLength" "off < int (length inData)"
    and tok: "read_token inData off = Inr (pos, copylen, off1)"
    and cp: "copy_loop d oi pos [0..<nat copylen] = Inr d1"
  from inv nonneg have oi: "0 \<le> oi" by simp
  from g tok cp have "for_loop inData outLength 1 [0] off oi d = Inr (off1, oi + copylen, d1)"
    by simp
  from for_loop_frame [OF this oi] inv nonneg oi
  show "offset \<le> off1 \<and> outIndex \<le> oi + copylen \<and> length d1 = length outData
         \<and> (\<forall>i. i < nat outIndex \<longrightarrow> d1 ! i = outData ! i)
         \<and> (\<forall>i. nat (oi + copylen) \<le> i \<longrightarrow> d1 ! i = outData ! i)"
    by auto
qed

section \<open>Streams cut short\<close>

lemma getitem_append:
  assumes "getitem s i = Inr v" "0 \<le> i"
  shows "getitem (s @ t) i = Inr v"
  using assms by (auto simp: getitem_nonneg nth_append split: if_splits)

lemma read_token_append:
  assumes "read_token s offset = Inr r" "0 \<le> offset"
  shows "read_token (s @ t) offset = Inr r"
proof -
  have g: "getitem (s @ t) i = Inr v" if "getitem s i = Inr v" "0 \<le> i" for i v
    using that by (rule getitem_append)
  from assms show ?thesis
    by (auto simp: read_token_def bind_eq_Inr Let_def g split: if_splits)
qed

lemma GetUncompressedSize_append:
  assumes "GetUncompressedSize s = Inr r"
  shows "GetUncompressedSize (s @ t) = Inr r"
proof -
  have g: "getitem (s @ t) i = Inr v" if "getitem s i = Inr v" "0 \<le> i" for i v
    using that by (rule getitem_append)
  from assms show ?thesis
    by (auto simp: GetUncompressedSize_def bind_eq_Inr Let_def g split: if_splits)
qed

lemma GetUncompressedSize_ranges:
  assumes "GetUncompressedSize s = Inr (outLength, offset)"
  shows "0 \<le> outLength" and "0 \<le> offset"
  using assms
  by (auto simp: GetUncompressedSize_def bind_eq_Inr Let_def split: if_splits)

lemma for_loop_append:
  assumes "for_loop s outLength flags xs offset outIndex outData = Inr (o1, i1, d1)"
    and "for_loop (s @ t) outLength flags xs offset outIndex outData = Inr (o2, i2, d2)"
    and "0 \<le> offset" "0 \<le> outIndex"
  shows "(o2, i2, d2) = (o1, i1, d1)
         \<or> (int (length s) \<le> o1 \<and> i1 \<le> i2 \<and> 0 \<le> i1 \<and> (\<forall>i. i < nat i1 \<longrightarrow> d2 ! i = d1 ! i))"
  using assms
proof (induction xs arbitrary: offset outIndex outData)
  case Nil
  then show ?case by simp
next
  case (Cons x xs)
  show ?case
  proof (cases "outIndex \<ge> outLength \<or> offset \<ge> int (length s)")
    case True
    with Cons.prems(1) have e: "o1 = offset" "i1 = outIndex" "d1 = outData" by simp_all
    show ?thesis
    proof (cases "outIndex \<ge> outLength")
      case True
      with Cons.prems(2) e show ?thesis by simp
    next
      case False
      with True have "int (length s) \<le> offset" by simp
      with for_loop_frame [OF Cons.prems(2,4)] e Cons.prems(4) show ?thesis by simp
    qed
  next
    case False
    then have g: "\<not> (outIndex \<ge> outLength \<or> offset \<ge> int (length (s @ t)))" by simp
    show ?thesis
    proof (cases "flags AND (push_bit x 1) \<noteq> 0")
      case True
      with False Cons.prems(1) obtain pos copylen off1 da where
        tok: "read_token s offset = Inr (pos, copylen, off1)" and
        cp: "copy_loop outData outIndex pos [0..<nat copylen] = Inr da" and
        rest: "for_loop s outLength flags xs off1 (outIndex + copylen) da = Inr (o1, i1, d1)"
        by (auto simp: bind_eq_Inr)
      from read_token_append [OF tok Cons.prems(3)]
      have tok': "read_token (s @ t) offset = Inr (pos, copylen, off1)" .
      with g True cp Cons.prems(2)
      have rest': "for_loop (s @ t) outLength flags xs off1 (outIndex + copylen) da = Inr (o2, i2, d2)"
        by simp
      from read_token_offset [OF tok] Cons.prems(3) have "0 \<le> off1" by auto
      moreover from read_token_ranges(2) [OF tok] Cons.prems(4) have "0 \<le> outIndex + copylen" by simp
      ultimately show ?thesis using Cons.IH [OF rest rest'] by simp
    next
      case lit: False
      with False Cons.prems(1) obtain v da where
        rd: "getitem s offset = Inr v" and
        wr: "setitem outData outIndex v = Inr da" and
        rest: "for_loop s outLength flags xs (offset + 1) (outIndex + 1) da = Inr (o1, i1, d1)"
        by (auto simp: bind_eq_Inr)
      from getitem_append [OF rd Cons.prems(3)] have rd': "getitem (s @ t) offset = Inr v" .
      with g lit wr Cons.prems(2)
      have rest': "for_loop (s @ t) outLength flags xs (offset + 1) (outIndex + 1) da = Inr (o2, i2, d2)"
        by simp
      from Cons.prems(3,4) show ?thesis using Cons.IH [OF rest rest'] by simp
    qed
  qed
qed

lemma while_loop_append:
  assumes "while_loop s outLength offset outIndex outData = Inr (o1, i1, d1)"
    and "while_loop (s @ t) outLength offset outIndex outData = Inr (o2, i2, d2)"
    and "0 \<le> offset" "0 \<le> outIndex"
  shows "i1 \<le> i2 \<and> (\<forall>i. i < nat i1 \<longrightarrow> d2 ! i = d1 ! i)"
  using assms
proof (induction s outLength offset outIndex outData rule: while_loop.induct)
  case (1 s outLength offset outIndex outData)
  show ?case
  proof (cases "outIndex < outLength \<and> offset < int (length s)")
    case False
    with "1.prems"(1) have e: "o1 = offset" "i1 = outIndex" "d1 = outData"
      by (simp_all add: while_loop_unfold)
    from while_loop_frame [OF "1.prems"(2,4)] e show ?thesis by simp
  next
    case True
    with "1.prems"(1) obtain fl oa ia da where
      rd: "getitem s offset = Inr fl" and
      inner: "for_loop s outLength (uint fl) (rev [0..<8]) (offset + 1) outIndex outData
                = Inr (oa, ia, da)" and
      rest: "while_loop s outLength oa ia da = Inr (o1, i1, d1)"
      by (subst (asm) while_loop_unfold) (auto simp: bind_eq_Inr)
    from True have g: "outIndex < outLength \<and> offset < int (length (s @ t))" by simp
    from getitem_append [OF rd "1.prems"(3)] have rd': "getitem (s @ t) offset = Inr fl" .
    with g "1.prems"(2) obtain ob ib db where
      inner': "for_loop (s @ t) outLength (uint fl) (rev [0..<8]) (offset + 1) outIndex outData
                = Inr (ob, ib, db)" and
      rest': "while_loop (s @ t) outLength ob ib db = Inr (o2, i2, d2)"
      by (subst (asm) while_loop_unfold) (auto simp: bind_eq_Inr)
    from "1.prems"(3) have off1: "0 \<le> offset + 1" by simp
    from for_loop_frame [OF inner "1.prems"(4)] "1.prems"(3,4) have nn: "0 \<le> oa" "0 \<le> ia" by simp_all
    from for_loop_frame [OF inner' "1.prems"(4)] "1.prems"(4) have nnb: "0 \<le> ib" by simp
    from for_loop_append [OF inner inner' off1 "1.prems"(4)]
    consider (same) "(ob, ib, db) = (oa, ia, da)"
      | (cut) "int (length s) \<le> oa" "ia \<le> ib" "\<forall>i. i < nat ia \<longrightarrow> db ! i = da ! i"
      by blast
    then show ?thesis
    proof cases
      case same
      with rest' have "while_loop (s @ t) outLength oa ia da = Inr (o2, i2, d2)" by simp
      from "1.IH" [OF True rd inner refl refl rest this nn] show ?thesis .
    next
      case cut
      with rest have e: "o1 = oa" "i1 = ia" "d1 = da"
        by (simp_all add: while_loop_unfold)
      note f = while_loop_frame [OF rest' nnb]
      have "d2 ! i = da ! i" if "i < nat ia" for i
      proof -
        from that cut(2) have "i < nat ib" by linarith
        with f have "d2 ! i = db ! i" by blast
        with cut(3) that show ?thesis by simp
      qed
      with f cut(2) e show ?thesis by simp
    qed
  qed
qed

text \<open>
  A run on a longer stream that stands at input offset \<open>length s\<close> at one of its test
  points has read nothing beyond \<open>s\<close>, so the run on \<open>s\<close> alone takes the same steps and
  then leaves both loops.
\<close>

lemma getitem_prefix:
  assumes "getitem (s @ t) i = Inr v" "0 \<le> i" "i < int (length s)"
  shows "getitem s i = Inr v"
  using assms by (auto simp: getitem_nonneg nth_append split: if_splits)

lemma read_token_prefix:
  assumes tok: "read_token (s @ t) offset = Inr (pos, copylen, offset')"
    and nn: "0 \<le> offset" and le: "offset' \<le> int (length s)"
  shows "read_token s offset = Inr (pos, copylen, offset')"
proof -
  have g: "getitem s i = getitem (s @ t) i" if "0 \<le> i" "i < int (length s)" for i
  proof -
    from that have "nat i < length s" by linarith
    with that show ?thesis by (simp add: getitem_nonneg nth_append)
  qed
  from read_token_offset [OF tok] le have l2: "offset + 2 \<le> int (length s)" by auto
  from nn l2 have g0: "getitem s offset = getitem (s @ t) offset"
    and g1: "getitem s (offset + 1) = getitem (s @ t) (offset + 1)"
    by (simp_all add: g)
  from tok obtain b1 b2 where b: "getitem (s @ t) offset = Inr b1"
    "getitem (s @ t) (offset + 1) = Inr b2"
    by (auto simp: read_token_def bind_eq_Inr Let_def)
  show ?thesis
  proof (cases "uint b1 < 32")
    case False
    with tok b g0 g1 show ?thesis by (simp add: read_token_def Let_def)
  next
    case True
    with tok b obtain b3 where b3: "getitem (s @ t) (offset + 2) = Inr b3"
      by (auto simp: read_token_def bind_eq_Inr Let_def)
    from True tok b b3 le have "offset + 3 \<le> int (length s)"
      by (auto simp: read_token_def bind_eq_Inr Let_def split: if_splits)
    with nn have g2: "getitem s (offset + 2) = getitem (s @ t) (offset + 2)"
      by (simp add: g)
    show ?thesis
    proof (cases "16 \<le> uint b1")
      case False
      with True tok b b3 g0 g1 g2 show ?thesis by (simp add: read_token_def Let_def)
    next
      case ge: True
      from True ge tok b b3 le have "offset + 4 \<le> int (length s)"
        by (auto simp: read_token_def bind_eq_Inr Let_def split: if_splits)
      with nn have g3: "getitem s (offset + 3) = getitem (s @ t) (offset + 3)"
        by (simp add: g)
      with True ge tok b b3 g0 g1 g2 show ?thesis by (simp add: read_token_def Let_def)
    qed
  qed
qed

lemma for_loop_prefix:
  assumes "for_loop (s @ t) outLength flags xs offset outIndex outData = Inr (o1, i1, d1)"
    and "0 \<le> offset" "o1 \<le> int (length s)"
  shows "for_loop s outLength flags xs offset outIndex outData = Inr (o1, i1, d1)"
  using assms
proof (induction xs arbitrary: offset outIndex outData)
  case Nil
  then show ?case by simp
next
  case (Cons x xs)
  show ?case
  proof (cases "outIndex \<ge> outLength \<or> offset \<ge> int (length (s @ t))")
    case True
    with Cons.prems(1) have e: "o1 = offset" "i1 = outIndex" "d1 = outData" by simp_all
    from True Cons.prems(3) e have "outIndex \<ge> outLength \<or> offset \<ge> int (length s)" by auto
    with e show ?thesis by simp
  next
    case False
    show ?thesis
    proof (cases "flags AND (push_bit x 1) \<noteq> 0")
      case True
      with False Cons.prems(1) obtain pos copylen off1 da where
        tok: "read_token (s @ t) offset = Inr (pos, copylen, off1)" and
        cp: "copy_loop outData outIndex pos [0..<nat copylen] = Inr da" and
        rest: "for_loop (s @ t) outLength flags xs off1 (outIndex + copylen) da = Inr (o1, i1, d1)"
        by (auto simp: bind_eq_Inr)
      from for_loop_offset [OF rest] Cons.prems(3) have l1: "off1 \<le> int (length s)" by simp
      from read_token_offset [OF tok] Cons.prems(2) l1
      have lt: "offset < int (length s)" and nn1: "0 \<le> off1" by auto
      from read_token_prefix [OF tok Cons.prems(2) l1]
      have tok': "read_token s offset = Inr (pos, copylen, off1)" .
      from Cons.IH [OF rest nn1 Cons.prems(3)]
      have "for_loop s outLength flags xs off1 (outIndex + copylen) da = Inr (o1, i1, d1)" .
      with False True lt tok' cp show ?thesis by simp
    next
      case lit: False
      with False Cons.prems(1) obtain v da where
        rd: "getitem (s @ t) offset = Inr v" and
        wr: "setitem outData outIndex v = Inr da" and
        rest: "for_loop (s @ t) outLength flags xs (offset + 1) (outIndex + 1) da = Inr (o1, i1, d1)"
        by (auto simp: bind_eq_Inr)
      from for_loop_offset [OF rest] Cons.prems(3) have lt: "offset < int (length s)" by simp
      from getitem_prefix [OF rd Cons.prems(2) lt] have rd': "getitem s offset = Inr v" .
      from Cons.prems(2) have "0 \<le> offset + 1" by simp
      from Cons.IH [OF rest this Cons.prems(3)]
      have "for_loop s outLength flags xs (offset + 1) (outIndex + 1) da = Inr (o1, i1, d1)" .
      with False lit lt rd' wr show ?thesis by simp
    qed
  qed
qed

lemma for_loop_take:
  assumes "for_loop inData outLength flags (take k xs) offset outIndex outData = Inr (o1, i1, d1)"
    and "int (length inData) \<le> o1"
  shows "for_loop inData outLength flags xs offset outIndex outData = Inr (o1, i1, d1)"
  using assms
proof (induction xs arbitrary: k offset outIndex outData)
  case Nil
  then show ?case by simp
next
  case (Cons x xs)
  show ?case
  proof (cases k)
    case 0
    with Cons.prems show ?thesis by simp
  next
    case (Suc j)
    show ?thesis
    proof (cases "outIndex \<ge> outLength \<or> offset \<ge> int (length inData)")
      case True
      with Cons.prems(1) Suc show ?thesis by simp
    next
      case False
      show ?thesis
      proof (cases "flags AND (push_bit x 1) \<noteq> 0")
        case True
        with False Cons.prems(1) Suc obtain pos copylen off1 da where
          tok: "read_token inData offset = Inr (pos, copylen, off1)" and
          cp: "copy_loop outData outIndex pos [0..<nat copylen] = Inr da" and
          rest: "for_loop inData outLength flags (take j xs) off1 (outIndex + copylen) da
                   = Inr (o1, i1, d1)"
          by (auto simp: bind_eq_Inr)
        from Cons.IH [OF rest Cons.prems(2)] False True tok cp show ?thesis by simp
      next
        case lit: False
        with False Cons.prems(1) Suc obtain v da where
          rd: "getitem inData offset = Inr v" and
          wr: "setitem outData outIndex v = Inr da" and
          rest: "for_loop inData outLength flags (take j xs) (offset + 1) (outIndex + 1) da
                   = Inr (o1, i1, d1)"
          by (auto simp: bind_eq_Inr)
        from Cons.IH [OF rest Cons.prems(2)] False lit rd wr show ?thesis by simp
      qed
    qed
  qed
qed

lemma while_steps_offset:
  assumes "while_steps n inData outLength offset outIndex outData = Inr (o1, i1, d1)"
  shows "offset \<le> o1"
  using assms
proof (induction n arbitrary: offset outIndex outData)
  case 0
  then show ?case by simp
next
  case (Suc n)
  show ?case
  proof (cases "outIndex < outLength \<and> offset < int (length inData)")
    case False
    with Suc.prems show ?thesis by simp
  next
    case True
    with Suc.prems obtain fl oa ia da where
      rd: "getitem inData offset = Inr fl" and
      inner: "for_loop inData outLength (uint fl) (rev [0..<8]) (offset + 1) outIndex outData
                = Inr (oa, ia, da)" and
      rest: "while_steps n inData outLength oa ia da = Inr (o1, i1, d1)"
      by (auto simp: bind_eq_Inr)
    from for_loop_offset [OF inner] Suc.IH [OF rest] show ?thesis by simp
  qed
qed

lemma while_steps_prefix:
  assumes "while_steps n (s @ t) outLength offset outIndex outData = Inr (o1, i1, d1)"
    and "0 \<le> offset" "o1 \<le> int (length s)"
  shows "while_steps n s outLength offset outIndex outData = Inr (o1, i1, d1)"
  using assms
proof (induction n arbitrary: offset outIndex outData)
  case 0
  then show ?case by simp
next
  case (Suc n)
  show ?case
  proof (cases "outIndex < outLength \<and> offset < int (length (s @ t))")
    case False
    with Suc.prems(1) have e: "o1 = offset" "i1 = outIndex" "d1 = outData"
      by (auto split: if_splits)
    from False Suc.prems(3) e have "\<not> (outIndex < outLength \<and> offset < int (length s))" by auto
    with e show ?thesis by auto
  next
    case True
    with Suc.prems(1) obtain fl oa ia da where
      rd: "getitem (s @ t) offset = Inr fl" and
      inner: "for_loop (s @ t) outLength (uint fl) (rev [0..<8]) (offset + 1) outIndex outData
                = Inr (oa, ia, da)" and
      rest: "while_steps n (s @ t) outLength oa ia da = Inr (o1, i1, d1)"
      by (auto simp: bind_eq_Inr)
    from while_steps_offset [OF rest] Suc.prems(3) have la: "oa \<le> int (length s)" by simp
    from for_loop_offset [OF inner] la Suc.prems(2)
    have lt: "offset < int (length s)" and nn: "0 \<le> offset + 1" "0 \<le> oa" by simp_all
    from getitem_prefix [OF rd Suc.prems(2) lt] have rd': "getitem s offset = Inr fl" .
    from for_loop_prefix [OF inner nn(1) la]
    have inner': "for_loop s outLength (uint fl) (rev [0..<8]) (offset + 1) outIndex outData
                = Inr (oa, ia, da)" .
    from Suc.IH [OF rest nn(2) Suc.prems(3)]
    have "while_steps n s outLength oa ia da = Inr (o1, i1, d1)" .
    with True lt rd' inner' show ?thesis by simp
  qed
qed

lemma while_loop_after_steps:
  assumes "while_steps n inData outLength offset outIndex outData = Inr (o1, i1, d1)"
  shows "while_loop inData outLength offset outIndex outData
           = while_loop inData outLength o1 i1 d1"
  using assms
proof (induction n arbitrary: offset outIndex outData)
  case 0
  then show ?case by simp
next
  case (Suc n)
  show ?case
  proof (cases "outIndex < outLength \<and> offset < int (length inData)")
    case False
    with Suc.prems show ?thesis by simp
  next
    case True
    with Suc.prems obtain fl oa ia da where
      rd: "getitem inData offset = Inr fl" and
      inner: "for_loop inData outLength (uint fl) (rev [0..<8]) (offset + 1) outIndex outData
                = Inr (oa, ia, da)" and
      rest: "while_steps n inData outLength oa ia da = Inr (o1, i1, d1)"
      by (auto simp: bind_eq_Inr)
    from True rd inner have "while_loop inData outLength offset outIndex outData
           = while_loop inData outLength oa ia da"
      by (subst while_loop_unfold) simp
    with Suc.IH [OF rest] show ?thesis by simp
  qed
qed

lemma while_loop_at_end:
  "while_loop s outLength (int (length s)) outIndex outData
     = Inr (int (length s), outIndex, outData)"
  by (subst while_loop_unfold) simp

lemma decode_upto_prefix:
  assumes cut: "decode_upto n k (s @ t) outLength offset outIndex outData
                  = Inr (int (length s), i1, d1)"
    and nn: "0 \<le> offset"
  shows "while_loop s outLength offset outIndex outData = Inr (int (length s), i1, d1)"
    and "offset \<le> int (length s)"
proof -
  from cut obtain oa ia da where
    steps: "while_steps n (s @ t) outLength offset outIndex outData = Inr (oa, ia, da)" and
    part: "partial_group k (s @ t) outLength oa ia da = Inr (int (length s), i1, d1)"
    by (auto simp: decode_upto_def bind_eq_Inr)
  from while_steps_offset [OF steps] nn have oa: "offset \<le> oa" "0 \<le> oa" by simp_all
  have group: "oa \<le> int (length s)
      \<and> while_loop s outLength oa ia da = Inr (int (length s), i1, d1)"
  proof (cases k)
    case 0
    with part show ?thesis by (simp add: while_loop_at_end)
  next
    case (Suc j)
    show ?thesis
    proof (cases "ia < outLength \<and> oa < int (length (s @ t))")
      case False
      with part Suc have "oa = int (length s)" "ia = i1" "da = d1"
        by (auto split: if_splits)
      then show ?thesis by (simp add: while_loop_at_end)
    next
      case True
      with part Suc obtain fl where
        rd: "getitem (s @ t) oa = Inr fl" and
        inner: "for_loop (s @ t) outLength (uint fl) (take j (rev [0..<8])) (oa + 1) ia da
                  = Inr (int (length s), i1, d1)"
        by (auto simp: bind_eq_Inr)
      from for_loop_offset [OF inner] have lt: "oa < int (length s)" by simp
      from getitem_prefix [OF rd oa(2) lt] have rd': "getitem s oa = Inr fl" .
      from oa(2) have "0 \<le> oa + 1" by simp
      from for_loop_prefix [OF inner this order_refl]
      have "for_loop s outLength (uint fl) (take j (rev [0..<8])) (oa + 1) ia da
                  = Inr (int (length s), i1, d1)" .
      from for_loop_take [OF this order_refl]
      have inner': "for_loop s outLength (uint fl) (rev [0..<8]) (oa + 1) ia da
                  = Inr (int (length s), i1, d1)" .
      from True lt rd' inner' have "while_loop s outLength oa ia da
          = while_loop s outLength (int (length s)) i1 d1"
        by (subst while_loop_unfold) simp
      with lt show ?thesis by (simp add: while_loop_at_end)
    qed
  qed
  from while_steps_prefix [OF steps nn] group
  have "while_steps n s outLength offset outIndex outData = Inr (oa, ia, da)" by simp
  from while_loop_after_steps [OF this] group
  show "while_loop s outLength offset outIndex outData = Inr (int (length s), i1, d1)"
    by simp
  from oa(1) group show "offset \<le> int (length s)" by simp
qed

lemma GetUncompressedSize_prefix:
  assumes "GetUncompressedSize (s @ t) = Inr (outLength, offset)" "offset \<le> int (length s)"
  shows "GetUncompressedSize s = Inr (outLength, offset)"
proof -
  have g: "getitem s i = getitem (s @ t) i" if "0 \<le> i" "i < int (length s)" for i
  proof -
    from that have "nat i < length s" by linarith
    with that show ?thesis by (simp add: getitem_nonneg nth_append)
  qed
  from assms(1) have off: "offset = 4 \<or> offset = 8"
    by (auto simp: GetUncompressedSize_def bind_eq_Inr Let_def split: if_splits)
  with assms(2) have g123: "getitem s 1 = getitem (s @ t) 1" "getitem s 2 = getitem (s @ t) 2"
    "getitem s 3 = getitem (s @ t) 3"
    by (auto intro: g)
  show ?thesis
  proof (cases "offset = 4")
    case True
    with assms(1) g123 show ?thesis
      by (auto simp: GetUncompressedSize_def bind_eq_Inr Let_def split: if_splits)
  next
    case False
    with off assms(2) have g4567: "getitem s 4 = getitem (s @ t) 4"
      "getitem s 5 = getitem (s @ t) 5"
      "getitem s 6 = getitem (s @ t) 6" "getitem s 7 = getitem (s @ t) 7"
      by (auto intro: g)
    have "GetUncompressedSize s = GetUncompressedSize (s @ t)"
      unfolding GetUncompressedSize_def g123 g4567 by (rule refl)
    with assms(1) show ?thesis by simp
  qed
qed

text \<open>
  Claim C4 says that every stream whose tokens end before \<open>outLength\<close> bytes are produced
  is decoded without an exception. The loops test \<^verbatim>\<open>offset < inLength\<close> only before a
  token, not between its bytes: the stream \<^verbatim>\<open>11 08 00 00 80 30\<close> ends after the first
  byte of a token, and reading the second byte raises \<^verbatim>\<open>IndexError\<close>.
\<close>

theorem truncated_inside_token_raises:
  "UncompressLZ77 [0x11, 8, 0, 0, 0x80, 0x30] = Inl IndexError"
  by code_simp

text \<open>
  Claim C4, amended. Let an input stream with marker \<open>0x11\<close> be a prefix of a stream on
  which the decoder, raising nothing, comes to stand at a token boundary (before a flag
  byte or before a token, where \<^verbatim>\<open>offset < inLength\<close> is tested) exactly at the end of
  the prefix. Then \<^verbatim>\<open>UncompressLZ77\<close> of the prefix terminates without an exception:
  its loops stop at that cursor, it returns a buffer of \<open>outLength\<close> bytes in which every
  byte at index \<open>\<ge> outIndex\<close> is zero, and the first \<open>outIndex\<close> bytes of the result
  equal those of the result of every longer stream that starts with this one and is
  decoded without error. (This holds whether or not \<open>outIndex < outLength\<close>.)
\<close>

theorem cut_at_token_boundary_decodes:
  assumes marker: "inData \<noteq> []" "inData ! 0 = 0x11"
    and header: "GetUncompressedSize (inData @ more) = Inr (outLength, offset)"
    and cut: "decode_upto n k (inData @ more) outLength offset 0 (replicate (nat outLength) 0)
                = Inr (int (length inData), outIndex, outData)"
  shows "UncompressLZ77 inData = Inr outData
       \<and> while_loop inData outLength offset 0 (replicate (nat outLength) 0)
           = Inr (int (length inData), outIndex, outData)
       \<and> int (length outData) = outLength
       \<and> (\<forall>i. nat outIndex \<le> i \<and> i < length outData \<longrightarrow> outData ! i = 0)
       \<and> (\<forall>rest full. UncompressLZ77 (inData @ rest) = Inr full \<longrightarrow>
             take (nat outIndex) full = take (nat outIndex) outData)"
proof -
  note rg = GetUncompressedSize_ranges [OF header]
  note p = decode_upto_prefix [OF cut rg(2)]
  from GetUncompressedSize_prefix [OF header p(2)]
  have header': "GetUncompressedSize inData = Inr (outLength, offset)" .
  from marker have m: "getitem inData 0 = Inr 0x11"
    by (simp add: getitem_nonneg)
  with header' p(1) have res: "UncompressLZ77 inData = Inr outData"
    by (simp add: UncompressLZ77_def)
  note f = while_loop_frame [OF p(1) order_refl]
  from f rg(1) have len: "int (length outData) = outLength" by simp
  have zero: "\<forall>i. nat outIndex \<le> i \<and> i < length outData \<longrightarrow> outData ! i = 0"
  proof (intro allI impI)
    fix i assume i: "nat outIndex \<le> i \<and> i < length outData"
    with f have "outData ! i = replicate (nat outLength) 0 ! i" by blast
    also from i f have "\<dots> = 0" by simp
    finally show "outData ! i = 0" .
  qed
  have ext: "\<forall>rest full. UncompressLZ77 (inData @ rest) = Inr full \<longrightarrow>
             take (nat outIndex) full = take (nat outIndex) outData"
  proof (intro allI impI)
    fix rest full
    assume e: "UncompressLZ77 (inData @ rest) = Inr full"
    from getitem_append [OF m order_refl] have m': "getitem (inData @ rest) 0 = Inr 0x11" .
    from GetUncompressedSize_append [OF header']
    have h': "GetUncompressedSize (inData @ rest) = Inr (outLength, offset)" .
    from e m' h' obtain o2 i2 where
      run': "while_loop (inData @ rest) outLength offset 0 (replicate (nat outLength) 0)
               = Inr (o2, i2, full)"
      by (auto simp: UncompressLZ77_def bind_eq_Inr)
    note f' = while_loop_frame [OF run' order_refl]
    from while_loop_append [OF p(1) run' rg(2) order_refl]
    have same: "\<forall>i. i < nat outIndex \<longrightarrow> full ! i = outData ! i"
      and le: "outIndex \<le> i2" by simp_all
    from f f' have l: "length full = length outData" by simp
    show "take (nat outIndex) full = take (nat outIndex) outData"
    proof (rule nth_equalityI)
      from l show "length (take (nat outIndex) full) = length (take (nat outIndex) outData)"
        by simp
      fix i assume "i < length (take (nat outIndex) full)"
      then have "i < nat outIndex" by simp
      with same show "take (nat outIndex) full ! i = take (nat outIndex) outData ! i"
        by simp
    qed
  qed
  from res p(1) len zero ext show ?thesis by blast
qed

theorem cut_at_token_boundary_decodes_witness:
  "[0x11, 8, 0, 0, 0x08, 0x41, 0x41, 0x41, 0x41 :: byte] \<noteq> [] \<and>
   [0x11, 8, 0, 0, 0x08, 0x41, 0x41, 0x41, 0x41 :: byte] ! 0 = 0x11 \<and>
   GetUncompressedSize ([0x11, 8, 0, 0, 0x08, 0x41, 0x41, 0x41, 0x41] @ [0x30, 0x00])
     = Inr (8, 4) \<and>
   decode_upto 0 5 ([0x11, 8, 0, 0, 0x08, 0x41, 0x41, 0x41, 0x41] @ [0x30, 0x00]) 8 4 0
       (replicate (nat 8) 0)
     = Inr (int (length [0x11, 8, 0, 0, 0x08, 0x41, 0x41, 0x41, 0x41 :: byte]), 4,
            [0x41, 0x41, 0x41, 0x41, 0, 0, 0, 0]) \<and>
   UncompressLZ77 [0x11, 8, 0, 0, 0x08, 0x41, 0x41, 0x41, 0x41]
     = Inr [0x41, 0x41, 0x41, 0x41, 0, 0, 0, 0] \<and>
   UncompressLZ77 ([0x11, 8, 0, 0, 0x08, 0x41, 0x41, 0x41, 0x41] @ [0x30, 0x00])
     = Inr [0x41, 0x41, 0x41, 0x41, 0x41, 0x41, 0x41, 0x41] \<and>
   take (nat 4) [0x41, 0x41, 0x41, 0x41, 0x41, 0x41, 0x41, 0x41 :: byte]
     = take (nat 4) [0x41, 0x41, 0x41, 0x41, 0, 0, 0, 0]"
proof -
  have h: "[0x11, 8, 0, 0, 0x08, 0x41, 0x41, 0x41, 0x41 :: byte] \<noteq> []"
    "[0x11, 8, 0, 0, 0x08, 0x41, 0x41, 0x41, 0x41 :: byte] ! 0 = 0x11"
    "GetUncompressedSize ([0x11, 8, 0, 0, 0x08, 0x41, 0x41, 0x41, 0x41] @ [0x30, 0x00])
       = Inr (8, 4)"
    "decode_upto 0 5 ([0x11, 8, 0, 0, 0x08, 0x41, 0x41, 0x41, 0x41] @ [0x30, 0x00]) 8 4 0
         (replicate (nat 8) 0)
       = Inr (int (length [0x11, 8, 0, 0, 0x08, 0x41, 0x41, 0x41, 0x41 :: byte]), 4,
              [0x41, 0x41, 0x41, 0x41, 0, 0, 0, 0])"
    by code_simp+
  have e: "UncompressLZ77 ([0x11, 8, 0, 0, 0x08, 0x41, 0x41, 0x41, 0x41] @ [0x30, 0x00])
     = Inr [0x41, 0x41, 0x41, 0x41, 0x41, 0x41, 0x41, 0x41]"
    by code_simp
  note t = cut_at_token_boundary_decodes [OF h]
  from t have a: "UncompressLZ77 [0x11, 8, 0, 0, 0x08, 0x41, 0x41, 0x41, 0x41]
     = Inr [0x41, 0x41, 0x41, 0x41, 0, 0, 0, 0]" by blast
  from t e have b: "take (nat 4) [0x41, 0x41, 0x41, 0x41, 0x41, 0x41, 0x41, 0x41 :: byte]
     = take (nat 4) [0x41, 0x41, 0x41, 0x41, 0, 0, 0, 0]" by blast
  from h e a b show ?thesis by blast
qed

end
